theory Spec2Isabelle
  imports Complex_Main
begin

section \<open>JavaScript numbers\<close>

text \<open>
  A JavaScript number is an IEEE 754 binary64 value: a finite value (given here by the
  real number it denotes), one of the two infinities, or NaN. The two zeros are not
  told apart: in the code modelled below the sign of a zero can only show in a division
  by zero, and there both signs lead to the same outcome.
\<close>

datatype number = Fin real | PInf | NInf | NaN

text \<open>\<open>pow2 k\<close> is \<open>2\<close> to the power \<open>k\<close> for an integer \<open>k\<close> of either sign.\<close>

definition pow2 :: "int \<Rightarrow> real" where
  "pow2 k = (if 0 \<le> k then 2 ^ nat k else 1 / 2 ^ nat (- k))"

text \<open>The number of binary digits of a natural number.\<close>

fun bitlen :: "nat \<Rightarrow> nat" where
  "bitlen n = (if n = 0 then 0 else Suc (bitlen (n div 2)))"

declare bitlen.simps [simp del]

text \<open>The binary exponent of a positive real: \<open>2 ^ ilog2 q \<le> q < 2 ^ (ilog2 q + 1)\<close>.\<close>

definition ilog2 :: "real \<Rightarrow> int" where
  "ilog2 q = (if 1 \<le> q then int (bitlen (nat \<lfloor>q\<rfloor>)) - 1
              else - int (bitlen (nat (\<lceil>1 / q\<rceil> - 1))))"

text \<open>Rounding to the nearest integer, a tie going to the even neighbour.\<close>

definition tiesToEven :: "int \<Rightarrow> real \<Rightarrow> int" where
  "tiesToEven n q =
     (if q - of_int n < 1 / 2 then n
      else if 1 / 2 < q - of_int n then n + 1
      else if even n then n else n + 1)"

definition rne :: "real \<Rightarrow> int" where
  "rne q = tiesToEven \<lfloor>q\<rfloor> q"

text \<open>
  Rounding of a real number to a binary format with \<open>p\<close> significant bits and exponents
  from \<open>emin\<close> to \<open>emax\<close> (roundTiesToEven, the only rounding JavaScript uses): the
  value is rounded to a multiple of the unit in the last place of its binade (of the
  lowest binade for a subnormal value), and a result of magnitude \<open>2 ^ (emax + 1)\<close> or
  more is an infinity.
\<close>

definition quantize :: "real \<Rightarrow> real \<Rightarrow> real" where
  "quantize u q = of_int (rne (q / u)) * u"

definition overflow :: "int \<Rightarrow> real \<Rightarrow> real \<Rightarrow> number" where
  "overflow emax q r =
     (if pow2 (emax + 1) \<le> \<bar>r\<bar> then (if 0 < q then PInf else NInf) else Fin r)"

definition round_to :: "int \<Rightarrow> int \<Rightarrow> int \<Rightarrow> real \<Rightarrow> number" where
  "round_to p emin emax q =
     (if q = 0 then Fin 0
      else overflow emax q (quantize (pow2 (max (ilog2 \<bar>q\<bar>) emin - p + 1)) q))"

text \<open>binary64 (every number) and binary32 (the elements of a \<open>Float32Array\<close>).\<close>

definition fl64 :: "real \<Rightarrow> number" where
  "fl64 = round_to 53 (- 1022) 1023"

definition fl32 :: "real \<Rightarrow> number" where
  "fl32 = round_to 24 (- 126) 127"

text \<open>
  The operators \<open>+\<close>, \<open>-\<close>, \<open>*\<close>, \<open>/\<close>, \<open><\<close> and \<open>\<le>\<close> of JavaScript on numbers: the
  exact result rounded to binary64, with the IEEE rules for infinities and NaN. A
  comparison with NaN is false.
\<close>

instantiation number :: "{plus, minus, uminus, times, inverse, ord}"
begin

fun plus_number :: "number \<Rightarrow> number \<Rightarrow> number" where
  "Fin a + Fin b = fl64 (a + b)"
| "NaN + _ = NaN"
| "_ + NaN = NaN"
| "PInf + NInf = NaN"
| "NInf + PInf = NaN"
| "PInf + _ = PInf"
| "_ + PInf = PInf"
| "NInf + _ = NInf"
| "_ + NInf = NInf"

fun uminus_number :: "number \<Rightarrow> number" where
  "- Fin a = Fin (- a)"
| "- PInf = NInf"
| "- NInf = PInf"
| "- NaN = NaN"

definition minus_number :: "number \<Rightarrow> number \<Rightarrow> number" where
  "a - b = a + (- b :: number)"

fun times_number :: "number \<Rightarrow> number \<Rightarrow> number" where
  "Fin a * Fin b = fl64 (a * b)"
| "NaN * _ = NaN"
| "_ * NaN = NaN"
| "Fin a * PInf = (if a = 0 then NaN else if 0 < a then PInf else NInf)"
| "Fin a * NInf = (if a = 0 then NaN else if 0 < a then NInf else PInf)"
| "PInf * Fin a = (if a = 0 then NaN else if 0 < a then PInf else NInf)"
| "NInf * Fin a = (if a = 0 then NaN else if 0 < a then NInf else PInf)"
| "PInf * PInf = PInf"
| "PInf * NInf = NInf"
| "NInf * PInf = NInf"
| "NInf * NInf = PInf"

fun divide_number :: "number \<Rightarrow> number \<Rightarrow> number" where
  "divide_number (Fin a) (Fin b) =
     (if b = 0 then (if a = 0 then NaN else if 0 < a then PInf else NInf)
      else fl64 (a / b))"
| "divide_number NaN _ = NaN"
| "divide_number _ NaN = NaN"
| "divide_number (Fin a) PInf = Fin 0"
| "divide_number (Fin a) NInf = Fin 0"
| "divide_number PInf (Fin b) = (if 0 \<le> b then PInf else NInf)"
| "divide_number NInf (Fin b) = (if 0 \<le> b then NInf else PInf)"
| "divide_number PInf PInf = NaN"
| "divide_number PInf NInf = NaN"
| "divide_number NInf PInf = NaN"
| "divide_number NInf NInf = NaN"

definition inverse_number :: "number \<Rightarrow> number" where
  "inverse_number a = divide (Fin 1) a"

fun less_number :: "number \<Rightarrow> number \<Rightarrow> bool" where
  "Fin a < Fin b = (a < b)"
| "NaN < _ = False"
| "_ < NaN = False"
| "_ < NInf = False"
| "PInf < _ = False"
| "NInf < _ = True"
| "_ < PInf = True"

fun less_eq_number :: "number \<Rightarrow> number \<Rightarrow> bool" where
  "Fin a \<le> Fin b = (a \<le> b)"
| "NaN \<le> _ = False"
| "_ \<le> NaN = False"
| "NInf \<le> _ = True"
| "_ \<le> PInf = True"
| "_ \<le> NInf = False"
| "PInf \<le> _ = False"

instance ..

end

text \<open>\<open>Math.min\<close>, \<open>Math.max\<close>, \<open>Math.floor\<close> and \<open>Math.ceil\<close>.\<close>

fun Math_min :: "number \<Rightarrow> number \<Rightarrow> number" where
  "Math_min NaN _ = NaN"
| "Math_min _ NaN = NaN"
| "Math_min a b = (if a \<le> b then a else b)"

fun Math_max :: "number \<Rightarrow> number \<Rightarrow> number" where
  "Math_max NaN _ = NaN"
| "Math_max _ NaN = NaN"
| "Math_max a b = (if a \<le> b then b else a)"

fun Math_floor :: "number \<Rightarrow> number" where
  "Math_floor (Fin a) = Fin (of_int \<lfloor>a\<rfloor>)"
| "Math_floor v = v"

fun Math_ceil :: "number \<Rightarrow> number" where
  "Math_ceil (Fin a) = Fin (of_int \<lceil>a\<rceil>)"
| "Math_ceil v = v"

text \<open>The integer part of a real number, rounding towards zero.\<close>

definition trunc :: "real \<Rightarrow> int" where
  "trunc a = (if 0 \<le> a then \<lfloor>a\<rfloor> else \<lceil>a\<rceil>)"

text \<open>
  The conversion a store into an \<open>Int16Array\<close> applies (ToInt16): NaN and the
  infinities become 0, a finite value is truncated and then reduced modulo \<open>2^16\<close> into
  the signed range.
\<close>

definition wrap16 :: "int \<Rightarrow> int" where
  "wrap16 n = (if 32768 \<le> n mod 65536 then n mod 65536 - 65536 else n mod 65536)"

fun ToInt16 :: "number \<Rightarrow> int" where
  "ToInt16 (Fin a) = wrap16 (trunc a)"
| "ToInt16 v = 0"

text \<open>The conversion a store into a \<open>Float32Array\<close> applies: rounding to binary32.\<close>

fun Math_fround :: "number \<Rightarrow> number" where
  "Math_fround (Fin a) = fl32 a"
| "Math_fround v = v"

text \<open>
  The length conversion of \<open>new Float32Array(length)\<close> (ToIndex): NaN is 0, a finite
  value is truncated, and a negative value or one above \<open>2^53 - 1\<close> is refused with a
  RangeError (\<open>None\<close>). An engine refuses smaller lengths too when it cannot allocate
  them; the model lets every representable length succeed.
\<close>

fun ToIndex :: "number \<Rightarrow> nat option" where
  "ToIndex NaN = Some 0"
| "ToIndex (Fin a) =
     (if trunc a < 0 \<or> 2 ^ 53 - 1 < trunc a then None else Some (nat (trunc a)))"
| "ToIndex v = None"

section \<open>Resampler and encoder (src/types.ts: downsampleTo16k, createPcmBlob)\<close>

datatype error = RangeError

text \<open>
  \<open>buffer[index] || 0\<close>: reading a typed array at anything but an integer index inside
  it gives \<open>undefined\<close>, and \<open>undefined\<close>, NaN and 0 are all replaced by 0.
\<close>

definition orZero :: "number \<Rightarrow> number" where
  "orZero v = (if v = NaN \<or> v = Fin 0 then Fin 0 else v)"

fun getSample :: "number list \<Rightarrow> number \<Rightarrow> number" where
  "getSample buffer (Fin a) =
     (if a = of_int \<lfloor>a\<rfloor> \<and> 0 \<le> a \<and> nat \<lfloor>a\<rfloor> < length buffer
      then orZero (buffer ! nat \<lfloor>a\<rfloor>) else Fin 0)"
| "getSample buffer v = Fin 0"

text \<open>The body of the resampling loop: the value stored at \<open>result[i]\<close>.\<close>

definition interpolate :: "number list \<Rightarrow> number \<Rightarrow> nat \<Rightarrow> number" where
  "interpolate buffer ratio i =
     (let originalIndex = Fin (of_nat i) * ratio;
          index1 = Math_floor originalIndex;
          index2 = Math_min (Math_ceil originalIndex) (Fin (of_nat (length buffer)) - Fin 1);
          t = originalIndex - index1;
          p1 = getSample buffer index1;
          p2 = getSample buffer index2
      in p1 * (Fin 1 - t) + p2 * t)"

text \<open>\<open>for (let i = 0; i < newLength; i++) result[i] = ...\<close>, on a \<open>Float32Array\<close>.\<close>

function downsampleLoop ::
  "number list \<Rightarrow> number \<Rightarrow> nat \<Rightarrow> nat \<Rightarrow> number list \<Rightarrow> number list" where
  "downsampleLoop buffer ratio newLength i result =
     (if i < newLength
      then downsampleLoop buffer ratio newLength (Suc i)
             (result[i := Math_fround (interpolate buffer ratio i)])
      else result)"
  by pat_completeness auto
termination
  by (relation "measure (\<lambda>(buffer, ratio, newLength, i, result). newLength - i)") auto

declare downsampleLoop.simps [simp del]

text \<open>
  \<open>downsampleTo16k\<close>. At 16000 Hz the buffer itself is returned. Otherwise a new
  \<open>Float32Array(newLength)\<close> (all zeros) is filled by the loop; the constructor throws a
  RangeError when \<open>newLength\<close> is not a valid length.
\<close>

definition downsampleTo16k :: "number list \<Rightarrow> number \<Rightarrow> error + number list" where
  "downsampleTo16k buffer inputSampleRate =
     (if inputSampleRate = Fin 16000 then Inr buffer
      else let ratio = inputSampleRate / Fin 16000;
               newLength = Math_ceil (Fin (of_nat (length buffer)) / ratio)
           in case ToIndex newLength of
                None \<Rightarrow> Inl RangeError
              | Some n \<Rightarrow> Inr (downsampleLoop buffer ratio n 0 (replicate n (Fin 0))))"

text \<open>
  The body of the conversion loop of \<open>createPcmBlob\<close>:
  \<open>s = Math.max(-1, Math.min(1, downsampledData[i]))\<close>, then
  \<open>int16[i] = s < 0 ? s * 0x8000 : s * 0x7FFF\<close>, a store into an \<open>Int16Array\<close>.
\<close>

definition clampSample :: "number \<Rightarrow> number" where
  "clampSample v = Math_max (Fin (- 1)) (Math_min (Fin 1) v)"

definition scaleSample :: "number \<Rightarrow> number" where
  "scaleSample s = (if s < Fin 0 then s * Fin 32768 else s * Fin 32767)"

definition toInt16Sample :: "number \<Rightarrow> int" where
  "toInt16Sample v = ToInt16 (scaleSample (clampSample v))"

text \<open>
  \<open>new Uint8Array(int16.buffer)\<close>: the two bytes of every element, low byte first
  (typed arrays use the byte order of the platform, little-endian on every platform
  JavaScript engines run on).
\<close>

definition int16Bytes :: "int \<Rightarrow> nat list" where
  "int16Bytes n = [nat (n mod 256), nat ((n div 256) mod 256)]"

definition uint8View :: "int list \<Rightarrow> nat list" where
  "uint8View int16 = concat (map int16Bytes int16)"

text \<open>
  \<open>createPcmBlob\<close>. The field \<open>data\<close> of the source is the base64 text that the
  browser's \<open>btoa\<close> makes of the byte sequence; the record keeps the byte sequence
  itself in \<open>pcmBytes\<close>.
\<close>

record PcmBlob =
  pcmBytes :: "nat list"
  mimeType :: string

definition createPcmBlob :: "number list \<Rightarrow> number \<Rightarrow> error + PcmBlob" where
  "createPcmBlob data inputSampleRate =
     (case downsampleTo16k data inputSampleRate of
        Inl e \<Rightarrow> Inl e
      | Inr downsampledData \<Rightarrow>
          Inr \<lparr> pcmBytes = uint8View (map toInt16Sample downsampledData),
                mimeType = ''audio/pcm;rate=16000'' \<rparr>)"

text \<open>
  The element at index \<open>i\<close> of an \<open>Int16Array\<close> laid over a byte sequence: what a
  reader of the PCM data gets back from the bytes of the blob.
\<close>

definition int16At :: "nat list \<Rightarrow> nat \<Rightarrow> int" where
  "int16At bytes i = wrap16 (int (bytes ! (2 * i)) + 256 * int (bytes ! (2 * i + 1)))"

section \<open>Combo/Score engine (src/App.tsx, triggerBo)\<close>

text \<open>
  The fields of \<open>GameState\<close> are JavaScript numbers, and the state is built from the
  match count and the time by \<open>+\<close>, \<open>-\<close>, \<open>*\<close>, \<open><\<close> and \<open>Math.max\<close> on numbers.
\<close>

record GameState =
  score :: number
  combo :: number
  maxCombo :: number
  lastBoTime :: number

text \<open>The argument of \<open>useState\<close> at the top of the component.\<close>

definition initialGameState :: GameState where
  "initialGameState = \<lparr> score = Fin 0, combo = Fin 1, maxCombo = Fin 1, lastBoTime = Fin 0 \<rparr>"

text \<open>
  The updater passed to \<open>setGameState\<close> inside \<open>triggerBo\<close>: \<open>prev\<close> is the current
  state, \<open>count\<close> the argument of \<open>triggerBo\<close> and \<open>now\<close> the value of \<open>Date.now()\<close>
  read at the start of the call.
\<close>

definition updateGameState :: "number \<Rightarrow> number \<Rightarrow> GameState \<Rightarrow> GameState" where
  "updateGameState count now prev =
     (let isCombo = (now - lastBoTime prev < Fin 2000);
          newCombo = (if isCombo then combo prev + count else Fin 1);
          points = count * Fin 100 * newCombo
      in \<lparr> score = score prev + points,
           combo = newCombo,
           maxCombo = Math_max (maxCombo prev) newCombo,
           lastBoTime = now \<rparr>)"

definition gameInvariant :: "GameState \<Rightarrow> bool" where
  "gameInvariant g = (Fin 0 \<le> score g \<and> Fin 1 \<le> combo g \<and> Fin 1 \<le> maxCombo g)"

text \<open>
  The integers that binary64 holds without a gap between neighbours
  (\<open>Number.isSafeInteger\<close>): those of magnitude below \<open>2^53\<close>.
\<close>

definition isSafeInteger :: "int \<Rightarrow> bool" where
  "isSafeInteger n = (- (2 ^ 53) < n \<and> n < 2 ^ 53)"

section \<open>Keyword spotter (src/App.tsx, BO_REGEX and its use in onmessage)\<close>

text \<open>
  A JavaScript string is a sequence of UTF-16 code units, given here by their numbers.
  \<open>ascii\<close> writes an ASCII string as such a sequence; the letter o with an acute accent
  is the single unit 243 (U+00F3), its capital 211 (U+00D3).
\<close>

type_synonym jsstring = "nat list"

definition ascii :: "string \<Rightarrow> jsstring" where
  "ascii s = map of_char s"

text \<open>
  The alternatives of \<open>/\b(b\<acute>o|bo|bow|ball|boy|bough|paul|bof)\b/gi\<close>, in the
  order of the pattern; the first one is the letter b followed by the unit 243.
\<close>

definition BO_WORDS :: "jsstring list" where
  "BO_WORDS = [[98, 243], ascii ''bo'', ascii ''bow'', ascii ''ball'', ascii ''boy'',
               ascii ''bough'', ascii ''paul'', ascii ''bof'']"

text \<open>
  The word characters of a pattern without the \<open>u\<close> flag: the ASCII letters, the
  digits and the underscore. \<open>\b\<close> holds at index \<open>e\<close> when exactly one of the units
  before and after it is a word character; outside the string there is none.
\<close>

definition isWordChar :: "nat \<Rightarrow> bool" where
  "isWordChar c = ((97 \<le> c \<and> c \<le> 122) \<or> (65 \<le> c \<and> c \<le> 90) \<or> (48 \<le> c \<and> c \<le> 57) \<or> c = 95)"

definition wordCharAt :: "jsstring \<Rightarrow> int \<Rightarrow> bool" where
  "wordCharAt s e = (0 \<le> e \<and> e < int (length s) \<and> isWordChar (s ! nat e))"

definition wordBoundary :: "jsstring \<Rightarrow> nat \<Rightarrow> bool" where
  "wordBoundary s e = (wordCharAt s (int e - 1) \<noteq> wordCharAt s (int e))"

text \<open>
  The case folding of the \<open>i\<close> flag compares the upper-case forms of single units. It
  is given for the ASCII letters and for the unit 243; every other unit is left as it
  is, which is its upper-case form or a unit that no unit of the pattern folds to.
\<close>

definition canonicalize :: "nat \<Rightarrow> nat" where
  "canonicalize c = (if 97 \<le> c \<and> c \<le> 122 then c - 32 else if c = 243 then 211 else c)"

definition matchesWordAt :: "jsstring \<Rightarrow> nat \<Rightarrow> jsstring \<Rightarrow> bool" where
  "matchesWordAt s i w =
     (i + length w \<le> length s \<and>
      map canonicalize (take (length w) (drop i s)) = map canonicalize w)"

text \<open>
  One attempt of the pattern at index \<open>i\<close>: \<open>\b\<close>, then the first alternative that
  matches and is followed by \<open>\b\<close> (an alternative that matches but is not followed by
  a boundary is given up for the next one). The result is the index after the match.
\<close>

definition matchAt :: "jsstring \<Rightarrow> nat \<Rightarrow> nat option" where
  "matchAt s i =
     (if wordBoundary s i
      then (case find (\<lambda>w. matchesWordAt s i w \<and> wordBoundary s (i + length w)) BO_WORDS of
              Some w \<Rightarrow> Some (i + length w)
            | None \<Rightarrow> None)
      else None)"

text \<open>
  \<open>transcription.match(BO_REGEX)\<close> with the \<open>g\<close> flag: the search starts at index 0,
  tries every index up to the length of the string, and goes on after each match from
  the index where the match ended (one further after an empty match). The result is
  the list of the matched substrings, \<open>null\<close> when there is none.
\<close>

function regexMatchAll :: "jsstring \<Rightarrow> nat \<Rightarrow> jsstring list" where
  "regexMatchAll s i =
     (if length s < i then []
      else (case matchAt s i of
              Some e \<Rightarrow>
                (if e \<le> i then take (e - i) (drop i s) # regexMatchAll s (Suc i)
                 else take (e - i) (drop i s) # regexMatchAll s e)
            | None \<Rightarrow> regexMatchAll s (Suc i)))"
  by pat_completeness auto
termination
  by (relation "measure (\<lambda>(s, i). Suc (length s) - i)") auto

declare regexMatchAll.simps [simp del]

definition String_match :: "jsstring \<Rightarrow> jsstring list option" where
  "String_match s = (case regexMatchAll s 0 of [] \<Rightarrow> None | m # ms \<Rightarrow> Some (m # ms))"

text \<open>The number of trigger words found in a transcription.\<close>

definition matchCount :: "jsstring \<Rightarrow> nat" where
  "matchCount s = (case String_match s of None \<Rightarrow> 0 | Some matches \<Rightarrow> length matches)"

section \<open>Particles (src/types.ts, src/App.tsx, src/components/BoVisualizer.tsx)\<close>

text \<open>
  The interface \<open>Particle\<close>. The fields \<open>id\<close> and \<open>text\<close> are written \<open>id'\<close> and
  \<open>text'\<close>.
\<close>

record Particle =
  id' :: nat
  x :: number
  y :: number
  text' :: jsstring
  vx :: number
  vy :: number
  rotation :: number
  vRotation :: number
  scale :: number
  color :: string
  life :: number
  decay :: number

text \<open>
  What the component reads from its surroundings: the successive results of
  \<open>Math.random()\<close>, the functions \<open>Math.cos\<close> and \<open>Math.sin\<close> (whose results the
  language leaves to the implementation) and the size of the window.
\<close>

record Env =
  random :: "nat \<Rightarrow> number"
  Math_cos :: "number \<Rightarrow> number"
  Math_sin :: "number \<Rightarrow> number"
  innerWidth :: number
  innerHeight :: number

text \<open>\<open>Math.PI\<close>, the binary64 value nearest to \<open>\<pi>\<close>.\<close>

definition Math_PI :: number where
  "Math_PI = Fin (884279719003555 / 281474976710656)"

definition COLORS :: "string list" where
  "COLORS = [''text-pink-500'', ''text-purple-600'', ''text-indigo-500'', ''text-cyan-500'',
             ''text-teal-400'', ''text-yellow-400'', ''text-orange-500'', ''text-red-500'']"

text \<open>
  \<open>COLORS[Math.floor(r * COLORS.length)]\<close> for a result \<open>r\<close> of \<open>Math.random()\<close>. An
  index outside the array, which \<open>0 \<le> r < 1\<close> excludes, reads \<open>undefined\<close>; it is
  given as the empty string.
\<close>

fun colorAt :: "number \<Rightarrow> string" where
  "colorAt (Fin a) =
     (if a = of_int \<lfloor>a\<rfloor> \<and> 0 \<le> a \<and> nat \<lfloor>a\<rfloor> < length COLORS
      then COLORS ! nat \<lfloor>a\<rfloor> else [])"
| "colorAt v = []"

definition getRandomColor :: "number \<Rightarrow> string" where
  "getRandomColor r = colorAt (Math_floor (r * Fin (of_nat (length COLORS))))"

text \<open>
  The state of the component \<open>App\<close> that the claims concern: the two \<open>useState\<close> cells
  and the \<open>particleIdCounter\<close> ref, with the number of calls of \<open>Math.random()\<close> made
  so far.
\<close>

record App =
  gameState :: GameState
  particles :: "Particle list"
  particleIdCounter :: nat
  randomCalls :: nat

definition initialApp :: App where
  "initialApp = \<lparr> gameState = initialGameState, particles = [], particleIdCounter = 0,
                  randomCalls = 0 \<rparr>"

text \<open>
  The body of the inner loop of \<open>triggerBo\<close>: nine calls of \<open>Math.random()\<close> in the
  order of the source, one new particle, appended by \<open>setParticles\<close>.
\<close>

definition newParticle :: "Env \<Rightarrow> nat \<Rightarrow> nat \<Rightarrow> Particle" where
  "newParticle env k idc =
     (let angle = random env k * Math_PI * Fin 2;
          velocity = Fin 5 + random env (k + 1) * Fin 10;
          startX = innerWidth env / Fin 2 + (random env (k + 2) - Fin (1 / 2)) * Fin 100;
          startY = innerHeight env / Fin 2 + (random env (k + 3) - Fin (1 / 2)) * Fin 100
      in \<lparr> id' = idc,
           x = startX,
           y = startY,
           text' = [66, 211],
           vx = Math_cos env angle * velocity,
           vy = Math_sin env angle * velocity - Fin 5,
           rotation = random env (k + 4) * Fin 360,
           vRotation = (random env (k + 5) - Fin (1 / 2)) * Fin 20,
           scale = Fin 2 + random env (k + 6) * Fin 3,
           color = getRandomColor (random env (k + 7)),
           life = Fin 1,
           decay = fl64 (1 / 100) + random env (k + 8) * fl64 (2 / 100) \<rparr>)"

definition spawnParticle :: "Env \<Rightarrow> App \<Rightarrow> App" where
  "spawnParticle env app =
     app\<lparr> particles := particles app @ [newParticle env (randomCalls app) (particleIdCounter app)],
          particleIdCounter := Suc (particleIdCounter app),
          randomCalls := randomCalls app + 9 \<rparr>"

text \<open>
  The number of times the body of \<open>for (let j = 0; j < n; j++)\<close> runs: for a finite
  \<open>n\<close> the number of naturals below it, and not once when \<open>n\<close> is NaN or \<open>-Infinity\<close>.
  The loop does not end when \<open>n\<close> is \<open>+Infinity\<close> or so large that \<open>j + 1\<close> rounds
  to \<open>j\<close>; the bound of the loop modelled here is at most 15 (lemmas
  \<open>particleCount_not_PInf\<close> and \<open>particleCount_le\<close> below).
\<close>

fun iterations :: "number \<Rightarrow> nat" where
  "iterations (Fin a) = nat \<lceil>a\<rceil>"
| "iterations v = 0"

text \<open>
  The body of the outer loop: \<open>particleCount = 5 + Math.min(gameState.combo, 10)\<close>
  particles. Here \<open>gameState\<close> is not the argument \<open>prev\<close> of the updater but the
  constant of the component function: the state of the render that created this
  \<open>triggerBo\<close>. It is the parameter \<open>rendered\<close>.
\<close>

definition particleCount :: "GameState \<Rightarrow> number" where
  "particleCount rendered = Fin 5 + Math_min (combo rendered) (Fin 10)"

definition spawnBurst :: "Env \<Rightarrow> GameState \<Rightarrow> App \<Rightarrow> App" where
  "spawnBurst env rendered app =
     (spawnParticle env ^^ iterations (particleCount rendered)) app"

text \<open>
  \<open>triggerBo(count)\<close>, called at time \<open>now\<close>: the state update, then \<open>count\<close> bursts.
  The argument is the length of an array, a natural number, and \<open>now\<close> is the value of
  \<open>Date.now()\<close>, a whole number of milliseconds; both enter the arithmetic as numbers.
\<close>

definition triggerBo :: "Env \<Rightarrow> GameState \<Rightarrow> nat \<Rightarrow> int \<Rightarrow> App \<Rightarrow> App" where
  "triggerBo env rendered count now app =
     (spawnBurst env rendered ^^ count)
       (app\<lparr> gameState :=
              updateGameState (Fin (of_nat count)) (Fin (of_int now)) (gameState app) \<rparr>)"

text \<open>
  The handler \<open>onmessage\<close> of the session: a message with a non-empty transcription in
  which the pattern matches calls \<open>triggerBo(matches.length)\<close>. The handler is created
  inside \<open>connectToGemini\<close> and keeps the \<open>triggerBo\<close> of the render in which the
  connect button was pressed, whose \<open>gameState\<close> is \<open>rendered\<close>.
\<close>

definition onmessage :: "Env \<Rightarrow> GameState \<Rightarrow> jsstring option \<Rightarrow> int \<Rightarrow> App \<Rightarrow> App" where
  "onmessage env rendered transcription now app =
     (case transcription of
        None \<Rightarrow> app
      | Some t \<Rightarrow>
          (if t = [] then app
           else (case String_match t of
                   None \<Rightarrow> app
                 | Some matches \<Rightarrow>
                     (if 0 < length matches
                      then triggerBo env rendered (length matches) now app
                      else app))))"

text \<open>The per-tick update of \<open>BoVisualizer\<close>: the updater passed to \<open>setParticles\<close>.\<close>

definition advance :: "Particle \<Rightarrow> Particle" where
  "advance p = p\<lparr> x := x p + vx p,
                  y := y p + vy p,
                  vy := vy p + Fin (1 / 2),
                  rotation := rotation p + vRotation p,
                  life := life p - decay p \<rparr>"

definition updateParticles :: "Particle list \<Rightarrow> Particle list" where
  "updateParticles prevParticles =
     (if length prevParticles = 0 then prevParticles
      else filter (\<lambda>p. Fin 0 < life p) (map advance prevParticles))"

text \<open>
  The events that reach the component once a session is open: a message of the server
  (with its transcription, if any, and the value \<open>Date.now()\<close> has when it is handled)
  and an animation frame. \<open>connectToGemini\<close> gives the state the handlers of the
  session keep; \<open>run\<close> handles a sequence of events of one session.
\<close>

datatype event = ServerMessage "jsstring option" int | AnimationFrame

definition connectToGemini :: "App \<Rightarrow> GameState" where
  "connectToGemini app = gameState app"

fun handle :: "Env \<Rightarrow> GameState \<Rightarrow> event \<Rightarrow> App \<Rightarrow> App" where
  "handle env rendered (ServerMessage transcription now) app =
     onmessage env rendered transcription now app"
| "handle env rendered AnimationFrame app =
     app\<lparr> particles := updateParticles (particles app) \<rparr>"

definition run :: "Env \<Rightarrow> App \<Rightarrow> event list \<Rightarrow> App" where
  "run env app events = foldl (\<lambda>a e. handle env (connectToGemini app) e a) app events"

text \<open>
  The life of a particle after \<open>n\<close> ticks, from its life \<open>l\<close> and its decay \<open>d\<close>, and
  whether it is positive after each of the first \<open>n\<close> ticks.
\<close>

fun lifeAfter :: "nat \<Rightarrow> number \<Rightarrow> number \<Rightarrow> number" where
  "lifeAfter 0 l d = l"
| "lifeAfter (Suc n) l d = lifeAfter n (l - d) d"

fun alive :: "nat \<Rightarrow> number \<Rightarrow> number \<Rightarrow> bool"
  and aliveWith :: "nat \<Rightarrow> number \<Rightarrow> number \<Rightarrow> bool" where
  "alive 0 l d = True"
| "alive (Suc n) l d = aliveWith n (l - d) d"
| "aliveWith n l d = (Fin 0 < l \<and> alive n l d)"

text \<open>A particle with a given id, life and decay, for the examples.\<close>

definition exampleParticle :: "nat \<Rightarrow> number \<Rightarrow> number \<Rightarrow> Particle" where
  "exampleParticle i l d =
     \<lparr> id' = i, x = Fin 640, y = Fin 360, text' = [66, 211], vx = Fin 3, vy = Fin (- 9),
       rotation = Fin 90, vRotation = Fin (- 4), scale = Fin 2, color = ''text-pink-500'',
       life = l, decay = d \<rparr>"

text \<open>Surroundings for the examples: a window of 1280 by 720 and constant results.\<close>

definition exampleEnv :: Env where
  "exampleEnv = \<lparr> random = (\<lambda>k. Fin (1 / 2)), Math_cos = (\<lambda>a. Fin 1), Math_sin = (\<lambda>a. Fin 0),
                  innerWidth = Fin 1280, innerHeight = Fin 720 \<rparr>"

section \<open>Properties of rounding\<close>

text \<open>The equations that evaluate the arithmetic on given numbers.\<close>

lemmas fl_eval = fl64_def round_to_def overflow_def quantize_def rne_def tiesToEven_def
  ilog2_def bitlen.simps pow2_def minus_number_def

lemma pow2_pos: "0 < pow2 k"
  by (simp add: pow2_def)

lemma bitlen_le: "n < 2 ^ k \<Longrightarrow> bitlen n \<le> k"
proof (induction k arbitrary: n)
  case 0
  then show ?case by (simp add: bitlen.simps)
next
  case (Suc k)
  have "n div 2 < 2 ^ k" using Suc.prems by simp
  then have "bitlen (n div 2) \<le> k" by (rule Suc.IH)
  then show ?case by (subst bitlen.simps) simp
qed

lemma bitlen_pos: "0 < n \<Longrightarrow> 0 < bitlen n"
  by (subst bitlen.simps) simp

lemma ilog2_less:
  assumes "0 < q" "q < 2 ^ k"
  shows "ilog2 q < int k"
proof (cases "1 \<le> q")
  case True
  have "real_of_int \<lfloor>q\<rfloor> < 2 ^ k" using assms(2) by linarith
  then have "\<lfloor>q\<rfloor> < 2 ^ k" by (metis of_int_less_iff of_int_numeral of_int_power)
  moreover have "0 \<le> \<lfloor>q\<rfloor>" using True by simp
  ultimately have "nat \<lfloor>q\<rfloor> < 2 ^ k" by (simp add: nat_less_iff)
  then have "bitlen (nat \<lfloor>q\<rfloor>) \<le> k" by (rule bitlen_le)
  then show ?thesis using True by (simp add: ilog2_def)
next
  case False
  then have "1 < 1 / q" using assms(1) by simp
  then have "2 \<le> \<lceil>1 / q\<rceil>" by linarith
  then have "0 < nat (\<lceil>1 / q\<rceil> - 1)" by simp
  then have "0 < bitlen (nat (\<lceil>1 / q\<rceil> - 1))" by (rule bitlen_pos)
  then show ?thesis using False by (simp add: ilog2_def)
qed

lemma rne_cases: "rne q = \<lfloor>q\<rfloor> \<or> (rne q = \<lfloor>q\<rfloor> + 1 \<and> of_int \<lfloor>q\<rfloor> < q)"
  by (auto simp add: rne_def tiesToEven_def)

lemma rne_le: "q \<le> of_int m \<Longrightarrow> rne q \<le> m"
  using rne_cases [of q] by (auto simp add: floor_le_iff)

lemma rne_ge: "of_int m \<le> q \<Longrightarrow> m \<le> rne q"
proof -
  assume "of_int m \<le> q"
  then have "m \<le> \<lfloor>q\<rfloor>" by (simp add: le_floor_iff)
  then show ?thesis using rne_cases [of q] by auto
qed

lemma quantize_le:
  assumes "q \<le> of_int m"
  shows "quantize (pow2 (- int j)) q \<le> of_int m"
proof -
  have u: "pow2 (- int j) = 1 / 2 ^ j" by (cases "j = 0") (simp_all add: pow2_def)
  have "q / (1 / 2 ^ j) \<le> of_int (m * 2 ^ j)" using assms by (simp add: mult_right_mono)
  then have "rne (q / (1 / 2 ^ j)) \<le> m * 2 ^ j" by (rule rne_le)
  then have "real_of_int (rne (q / (1 / 2 ^ j))) \<le> of_int m * 2 ^ j"
    by (metis of_int_le_iff of_int_mult of_int_numeral of_int_power)
  then show ?thesis by (simp add: quantize_def u field_simps)
qed

lemma quantize_ge:
  assumes "of_int m \<le> q"
  shows "of_int m \<le> quantize (pow2 (- int j)) q"
proof -
  have u: "pow2 (- int j) = 1 / 2 ^ j" by (cases "j = 0") (simp_all add: pow2_def)
  have "of_int (m * 2 ^ j) \<le> q / (1 / 2 ^ j)" using assms by (simp add: mult_right_mono)
  then have "m * 2 ^ j \<le> rne (q / (1 / 2 ^ j))" by (rule rne_ge)
  then have "of_int m * 2 ^ j \<le> real_of_int (rne (q / (1 / 2 ^ j)))"
    by (metis of_int_le_iff of_int_mult of_int_numeral of_int_power)
  then show ?thesis by (simp add: quantize_def u field_simps)
qed

lemma round_to_between:
  assumes lo: "of_int lo \<le> q" and hi: "q \<le> of_int hi"
    and range: "- (2 ^ k) < lo" "hi < 2 ^ k"
    and fmt: "int k \<le> p" "emin < p" "int k \<le> emax + 1"
  shows "\<exists>r. round_to p emin emax q = Fin r \<and> of_int lo \<le> r \<and> r \<le> of_int hi"
proof (cases "q = 0")
  case True
  then show ?thesis using lo hi by (simp add: round_to_def)
next
  case False
  have "\<bar>q\<bar> < 2 ^ k"
  proof -
    have "real_of_int hi < 2 ^ k" using range(2) by simp
    moreover have "real_of_int (- (2 ^ k)) < real_of_int lo"
      using range(1) by (simp only: of_int_less_iff)
    then have "- (2 ^ k) < real_of_int lo" by simp
    ultimately show ?thesis using lo hi by linarith
  qed
  then have "ilog2 \<bar>q\<bar> < int k" using False by (intro ilog2_less) simp_all
  then have "max (ilog2 \<bar>q\<bar>) emin - p + 1 \<le> 0" using fmt by simp
  then obtain j where j: "max (ilog2 \<bar>q\<bar>) emin - p + 1 = - int j"
    by (metis nat_0_le neg_0_le_iff_le minus_minus)
  define r where "r = quantize (pow2 (- int j)) q"
  have r: "of_int lo \<le> r" "r \<le> of_int hi"
    unfolding r_def using lo hi by (simp_all add: quantize_ge quantize_le)
  have "\<bar>r\<bar> < 2 ^ k"
  proof -
    have "real_of_int hi < 2 ^ k" using range(2) by simp
    moreover have "real_of_int (- (2 ^ k)) < real_of_int lo"
      using range(1) by (simp only: of_int_less_iff)
    then have "- (2 ^ k) < real_of_int lo" by simp
    ultimately show ?thesis using r by linarith
  qed
  moreover have "(2::real) ^ k \<le> pow2 (emax + 1)"
  proof -
    have "0 \<le> emax + 1" using fmt by simp
    moreover have "k \<le> nat (emax + 1)" using fmt by simp
    ultimately show ?thesis by (simp add: pow2_def power_increasing)
  qed
  ultimately have "\<not> pow2 (emax + 1) \<le> \<bar>r\<bar>" by simp
  then have "round_to p emin emax q = Fin r"
    using False by (simp add: round_to_def overflow_def j r_def)
  then show ?thesis using r by blast
qed

lemma fl64_between:
  assumes "of_int lo \<le> q" "q \<le> of_int hi" "- (2 ^ 53) < lo" "hi < 2 ^ 53"
  shows "\<exists>r. fl64 q = Fin r \<and> of_int lo \<le> r \<and> r \<le> of_int hi"
  unfolding fl64_def using assms by (intro round_to_between [where k = 53]) simp_all


text \<open>
  Integers below \<open>2^53\<close> are numbers, and sums and products that stay below
  \<open>2^53\<close> are exact.
\<close>

lemma fl64_of_int:
  assumes "- (2 ^ 53) < m" "m < 2 ^ 53"
  shows "fl64 (of_int m) = Fin (of_int m)"
proof -
  have "\<exists>r. fl64 (of_int m) = Fin r \<and> of_int m \<le> r \<and> r \<le> of_int m"
    using assms by (intro fl64_between) simp_all
  then show ?thesis by auto
qed

lemma integer_arithmetic_exact:
  assumes "- (2 ^ 53) < a + b" "a + b < 2 ^ 53" "- (2 ^ 53) < a * b" "a * b < 2 ^ 53"
  shows "Fin (of_int a) + Fin (of_int b) = Fin (of_int (a + b))"
    and "Fin (of_int a) * Fin (of_int b) = Fin (of_int (a * b))"
  using fl64_of_int [of "a + b"] fl64_of_int [of "a * b"] assms by simp_all

text \<open>The sum \<open>0.1 + 0.2\<close> is the number written \<open>0.30000000000000004\<close>.\<close>

lemma fl64_example: "fl64 (1 / 10) + fl64 (2 / 10) = Fin (1351079888211149 / 4503599627370496)"
  by (simp add: fl_eval)

lemma pow2_powi: "pow2 k = 2 powi k"
  by (simp add: pow2_def power_int_def inverse_eq_divide power_one_over)

lemma pow2_add: "pow2 (a + b) = pow2 a * pow2 b"
  by (simp add: pow2_powi power_int_add)

lemma pow2_strict_mono: "a < b \<Longrightarrow> pow2 a < pow2 b"
  by (simp add: pow2_powi power_int_strict_increasing)

lemma pow2_mono: "a \<le> b \<Longrightarrow> pow2 a \<le> pow2 b"
  by (simp add: pow2_powi power_int_increasing)

lemma pow2_less_iff: "pow2 a < pow2 b \<longleftrightarrow> a < b"
  using pow2_strict_mono [of a b] pow2_mono [of b a] by (cases "a < b") auto

lemma pow2_le_iff: "pow2 a \<le> pow2 b \<longleftrightarrow> a \<le> b"
  using pow2_strict_mono [of b a] pow2_mono [of a b] by (cases "a \<le> b") auto

lemma pow2_Suc: "pow2 (a + 1) = 2 * pow2 a"
proof -
  have "pow2 (a + 1) = pow2 a * pow2 1" by (rule pow2_add)
  moreover have "pow2 1 = 2" by (simp add: pow2_def)
  ultimately show ?thesis by simp
qed

lemma pow2_of_nat: "pow2 (int n) = 2 ^ n"
  by (simp add: pow2_def)

lemma pow2_minus_nat: "pow2 (- int n) = 1 / 2 ^ n"
  by (cases "n = 0") (simp_all add: pow2_def)

lemma bitlen_upper: "n < 2 ^ bitlen n"
proof (induction n rule: bitlen.induct)
  case (1 n)
  show ?case
  proof (cases "n = 0")
    case True
    then show ?thesis by simp
  next
    case False
    then have "n div 2 < 2 ^ bitlen (n div 2)" by (rule "1.IH")
    then have "n < 2 * 2 ^ bitlen (n div 2)" by linarith
    then show ?thesis using False by (subst bitlen.simps) simp
  qed
qed

lemma bitlen_lower: "0 < n \<Longrightarrow> 2 ^ (bitlen n - 1) \<le> n"
proof (induction n rule: bitlen.induct)
  case (1 n)
  show ?case
  proof (cases "n div 2 = 0")
    case True
    then have "n = 1" using "1.prems" by linarith
    then show ?thesis by (simp add: bitlen.simps)
  next
    case False
    then have pos: "0 < n div 2" by simp
    then have ih: "2 ^ (bitlen (n div 2) - 1) \<le> n div 2" using "1.prems" "1.IH" by simp
    have "0 < bitlen (n div 2)" using pos by (rule bitlen_pos)
    then have "bitlen (n div 2) = Suc (bitlen (n div 2) - 1)" by simp
    then have "(2::nat) ^ bitlen (n div 2) = 2 * 2 ^ (bitlen (n div 2) - 1)"
      by (metis power_Suc)
    also have "\<dots> \<le> 2 * (n div 2)" using ih by simp
    also have "\<dots> \<le> n" by simp
    finally show ?thesis using "1.prems" by (subst bitlen.simps) simp
  qed
qed

lemma ilog2_bounds:
  assumes "0 < q"
  shows "pow2 (ilog2 q) \<le> q \<and> q < pow2 (ilog2 q + 1)"
proof (cases "1 \<le> q")
  case True
  define n where "n = nat \<lfloor>q\<rfloor>"
  have "0 \<le> \<lfloor>q\<rfloor>" using True by simp
  then have rn: "real n = of_int \<lfloor>q\<rfloor>" by (simp add: n_def)
  have "1 \<le> \<lfloor>q\<rfloor>" using True by simp
  then have "0 < n" by (simp add: n_def)
  moreover have "real n \<le> q" unfolding rn by linarith
  moreover have "q < real n + 1" unfolding rn by linarith
  ultimately have n: "0 < n" "real n \<le> q" "q < real n + 1" by simp_all
  have e: "ilog2 q = int (bitlen n - 1)"
    using True bitlen_pos [OF n(1)] by (simp add: ilog2_def n_def)
  have lo: "(2::real) ^ (bitlen n - 1) \<le> real n"
    using bitlen_lower [OF n(1)] by simp
  have "pow2 (ilog2 q) = 2 ^ (bitlen n - 1)" by (simp add: e pow2_of_nat)
  then have lower: "pow2 (ilog2 q) \<le> q" using lo n(2) by linarith
  have "Suc n \<le> 2 ^ bitlen n" using bitlen_upper [of n] by simp
  then have "real (Suc n) \<le> 2 ^ bitlen n" by (simp only: of_nat_le_numeral_power_cancel_iff)
  then have up: "real n + 1 \<le> 2 ^ bitlen n" by simp
  have "ilog2 q + 1 = int (bitlen n)" using bitlen_pos [OF n(1)] by (simp add: e)
  then have "pow2 (ilog2 q + 1) = 2 ^ bitlen n" by (simp add: pow2_of_nat)
  then have "q < pow2 (ilog2 q + 1)" using up n(3) by linarith
  then show ?thesis using lower by simp
next
  case False
  define n where "n = nat (\<lceil>1 / q\<rceil> - 1)"
  have "1 < 1 / q" using False assms by simp
  then have c: "2 \<le> \<lceil>1 / q\<rceil>" by linarith
  have "0 \<le> \<lceil>1 / q\<rceil> - 1" using c by linarith
  then have "real n = of_int (\<lceil>1 / q\<rceil> - 1)" unfolding n_def by (simp only: of_nat_nat)
  then have rn: "real n = of_int \<lceil>1 / q\<rceil> - 1" by simp
  have "0 < n" using c by (simp add: n_def)
  moreover have "real n < 1 / q" unfolding rn by linarith
  moreover have "1 / q \<le> real n + 1" unfolding rn by linarith
  ultimately have n: "0 < n" "real n < 1 / q" "1 / q \<le> real n + 1" by simp_all
  have e: "ilog2 q = - int (bitlen n)" using False by (simp add: ilog2_def n_def)
  have "Suc n \<le> 2 ^ bitlen n" using bitlen_upper [of n] by simp
  then have "real (Suc n) \<le> 2 ^ bitlen n" by (simp only: of_nat_le_numeral_power_cancel_iff)
  then have "real n + 1 \<le> 2 ^ bitlen n" by simp
  then have "1 / q \<le> 2 ^ bitlen n" using n(3) by linarith
  then have "1 / 2 ^ bitlen n \<le> q" using assms by (simp add: field_simps)
  then have lower: "pow2 (ilog2 q) \<le> q" by (simp add: e pow2_minus_nat)
  have "(2::real) ^ (bitlen n - 1) \<le> real n"
    using bitlen_lower [OF n(1)] by simp
  then have "2 ^ (bitlen n - 1) < 1 / q" using n(2) by linarith
  then have "q < 1 / 2 ^ (bitlen n - 1)" using assms by (simp add: field_simps)
  moreover have "ilog2 q + 1 = - int (bitlen n - 1)" using bitlen_pos [OF n(1)] by (simp add: e)
  ultimately have "q < pow2 (ilog2 q + 1)" by (simp add: pow2_minus_nat)
  then show ?thesis using lower by simp
qed

lemma rne_error: "\<bar>of_int (rne t) - t\<bar> \<le> 1 / 2"
proof -
  have "of_int \<lfloor>t\<rfloor> \<le> t" "t < of_int \<lfloor>t\<rfloor> + 1" by linarith+
  then show ?thesis by (auto simp add: rne_def tiesToEven_def)
qed

lemma round_to_error:
  assumes q: "pow2 emin \<le> \<bar>q\<bar>" "\<bar>q\<bar> \<le> pow2 emax" and p: "1 \<le> p"
  shows "\<exists>r. round_to p emin emax q = Fin r \<and> \<bar>r - q\<bar> \<le> \<bar>q\<bar> * pow2 (- p)"
proof -
  have pos: "0 < \<bar>q\<bar>" using q(1) pow2_pos [of emin] by linarith
  then have nz: "q \<noteq> 0" by simp
  define e where "e = ilog2 \<bar>q\<bar>"
  have e: "pow2 e \<le> \<bar>q\<bar>" "\<bar>q\<bar> < pow2 (e + 1)"
    using ilog2_bounds [OF pos] by (simp_all add: e_def)
  have "pow2 emin < pow2 (e + 1)" using q(1) e(2) by linarith
  then have "emin \<le> e" by (simp add: pow2_less_iff)
  then have m: "max (ilog2 \<bar>q\<bar>) emin = e" by (simp add: e_def)
  define u where "u = pow2 (e - p + 1)"
  define r where "r = quantize u q"
  have u: "0 < u" by (simp add: u_def pow2_pos)
  have "r - q = (of_int (rne (q / u)) - q / u) * u" using u by (simp add: r_def quantize_def field_simps)
  then have "\<bar>r - q\<bar> = \<bar>of_int (rne (q / u)) - q / u\<bar> * u" using u by (simp add: abs_mult)
  also have "\<dots> \<le> 1 / 2 * u" using rne_error [of "q / u"] u by (intro mult_right_mono) simp_all
  also have "1 / 2 * u = pow2 e * pow2 (- p)"
  proof -
    have "u = pow2 (e - p + 1)" by (simp add: u_def)
    also have "\<dots> = 2 * pow2 (e + - p)" by (simp add: pow2_Suc)
    also have "\<dots> = 2 * (pow2 e * pow2 (- p))" by (simp only: pow2_add)
    finally show ?thesis by simp
  qed
  also have "\<dots> \<le> \<bar>q\<bar> * pow2 (- p)" using e(1) pow2_pos [of "- p"] by (intro mult_right_mono) simp_all
  finally have err: "\<bar>r - q\<bar> \<le> \<bar>q\<bar> * pow2 (- p)" .
  have "pow2 (- p) \<le> pow2 (- 1)" using p by (simp add: pow2_le_iff)
  then have "pow2 (- p) \<le> 1 / 2" by (simp add: pow2_def)
  then have "\<bar>q\<bar> * pow2 (- p) \<le> \<bar>q\<bar> * (1 / 2)" using pos by (intro mult_left_mono) simp_all
  then have "\<bar>r\<bar> < 2 * \<bar>q\<bar>" using err pos by linarith
  also have "\<dots> \<le> 2 * pow2 emax" using q(2) by simp
  also have "\<dots> = pow2 (emax + 1)" by (simp add: pow2_Suc)
  finally have "\<not> pow2 (emax + 1) \<le> \<bar>r\<bar>" by simp
  then have "round_to p emin emax q = Fin r"
    using nz by (simp add: round_to_def overflow_def m r_def u_def)
  then show ?thesis using err by blast
qed

lemma fl64_error:
  assumes "1 / 2 ^ 20 \<le> \<bar>q\<bar>" "\<bar>q\<bar> \<le> 2 ^ 40"
  shows "\<exists>r. fl64 q = Fin r \<and> \<bar>r - q\<bar> \<le> \<bar>q\<bar> / 2 ^ 53"
proof -
  have "pow2 (- 1022) \<le> pow2 (- int 20)" by (rule pow2_mono) simp
  then have lo: "pow2 (- 1022) \<le> \<bar>q\<bar>" using assms(1) by (simp only: pow2_minus_nat)
  have "pow2 (int 40) \<le> pow2 1023" by (rule pow2_mono) simp
  then have hi: "\<bar>q\<bar> \<le> pow2 1023" using assms(2) by (simp only: pow2_of_nat)
  have "\<exists>r. round_to 53 (- 1022) 1023 q = Fin r \<and> \<bar>r - q\<bar> \<le> \<bar>q\<bar> * pow2 (- 53)"
    using lo hi by (intro round_to_error) simp_all
  moreover have "pow2 (- 53) = 1 / 2 ^ 53" using pow2_minus_nat [of 53] by simp
  ultimately show ?thesis by (simp add: fl64_def)
qed

text \<open>
  Rounding never takes a value below an integer of magnitude under \<open>2^53\<close> that it
  is not below itself, also when the result is an infinity.
\<close>

lemma round_to_ge:
  assumes m: "of_int m \<le> q" and range: "- (2 ^ k) < m" "m < 2 ^ k"
    and fmt: "int k \<le> p" "1 \<le> p" "emin \<le> 0" "int k \<le> emax + 1"
  shows "Fin (of_int m) \<le> round_to p emin emax q"
proof (cases "q = 0")
  case True
  then show ?thesis using m by (simp add: round_to_def)
next
  case nz: False
  define e where "e = max (ilog2 \<bar>q\<bar>) emin"
  define u where "u = pow2 (e - p + 1)"
  define r where "r = quantize u q"
  have u: "0 < u" by (simp add: u_def pow2_pos)
  have mlt: "real_of_int m < 2 ^ k" using range(2) by simp
  have "real_of_int (- (2 ^ k)) < real_of_int m" using range(1) by (simp only: of_int_less_iff)
  then have mgt: "- (2 ^ k) < real_of_int m" by simp
  have rm: "of_int m \<le> r"
  proof (cases "e - p + 1 \<le> 0")
    case True
    then obtain j where "e - p + 1 = - int j"
      by (metis nat_0_le neg_0_le_iff_le minus_minus)
    then show ?thesis unfolding r_def u_def using m by (simp add: quantize_ge)
  next
    case False
    then have pe: "p \<le> e" by simp
    then have "emin < e" using fmt by simp
    then have e_eq: "e = ilog2 \<bar>q\<bar>" by (simp add: e_def max_def split: if_splits)
    have qe: "pow2 e \<le> \<bar>q\<bar>" using ilog2_bounds [of "\<bar>q\<bar>"] nz by (simp add: e_eq)
    have "pow2 (int k) \<le> pow2 e" using fmt pe by (intro pow2_mono) simp
    then have ke: "2 ^ k \<le> pow2 e" by (simp only: pow2_of_nat)
    show ?thesis
    proof (cases "0 < q")
      case True
      have "pow2 ((p - 1) + (e - p + 1)) = pow2 (p - 1) * pow2 (e - p + 1)" by (rule pow2_add)
      then have split: "pow2 e = pow2 (p - 1) * u" by (simp add: u_def)
      have "pow2 (p - 1) = 2 ^ nat (p - 1)" using fmt by (simp add: pow2_def)
      then have pw: "pow2 (p - 1) = real_of_int (2 ^ nat (p - 1))" by simp
      have "pow2 (p - 1) * u \<le> q" using qe True by (simp add: split)
      then have "pow2 (p - 1) \<le> q / u" using u by (simp add: le_divide_eq)
      then have "real_of_int (2 ^ nat (p - 1)) \<le> q / u" by (simp only: pw)
      then have "2 ^ nat (p - 1) \<le> rne (q / u)" by (rule rne_ge)
      then have "real_of_int (2 ^ nat (p - 1)) \<le> real_of_int (rne (q / u))"
        by (simp only: of_int_le_iff)
      then have "real_of_int (2 ^ nat (p - 1)) * u \<le> real_of_int (rne (q / u)) * u"
        using u by (intro mult_right_mono) simp_all
      then have "pow2 e \<le> r" by (simp only: r_def quantize_def split pw)
      then show ?thesis using ke mlt by linarith
    next
      case False
      then have "q \<le> - pow2 e" using qe nz by linarith
      then show ?thesis using m ke mgt by linarith
    qed
  qed
  show ?thesis
  proof (cases "pow2 (emax + 1) \<le> \<bar>r\<bar>")
    case True
    have "pow2 (int k) \<le> pow2 (emax + 1)" using fmt by (intro pow2_mono) simp
    then have kmax: "2 ^ k \<le> pow2 (emax + 1)" by (simp only: pow2_of_nat)
    have "0 < q"
    proof (rule ccontr)
      assume "\<not> 0 < q"
      then have "q / u \<le> real_of_int 0" using u by (simp add: divide_le_0_iff)
      then have "rne (q / u) \<le> 0" by (rule rne_le)
      then have "real_of_int (rne (q / u)) \<le> 0" by simp
      then have "r \<le> 0" using u by (simp add: r_def quantize_def mult_le_0_iff)
      then show False using True rm mgt kmax by linarith
    qed
    then show ?thesis using True nz by (simp add: round_to_def overflow_def e_def u_def r_def)
  next
    case False
    then show ?thesis using rm nz by (simp add: round_to_def overflow_def e_def u_def r_def)
  qed
qed

lemma fl64_ge:
  assumes "of_int m \<le> q" "- (2 ^ 53) < m" "m < 2 ^ 53"
  shows "Fin (of_int m) \<le> fl64 q"
  unfolding fl64_def using assms by (intro round_to_ge [where k = 53]) simp_all

lemma fl64_not_PInf:
  assumes "q \<le> of_int hi" "hi < 2 ^ 53"
  shows "fl64 q \<noteq> PInf"
proof (cases "0 < q")
  case True
  then have "\<exists>r. fl64 q = Fin r \<and> of_int 0 \<le> r \<and> r \<le> of_int hi"
    using assms by (intro fl64_between) simp_all
  then show ?thesis by auto
next
  case False
  then show ?thesis by (simp add: fl64_def round_to_def overflow_def)
qed

lemma quantize_nonpos: "0 < u \<Longrightarrow> q \<le> 0 \<Longrightarrow> quantize u q \<le> 0"
proof -
  assume u: "0 < u" and q: "q \<le> 0"
  then have "q / u \<le> real_of_int 0" by (simp add: divide_le_0_iff)
  then have "rne (q / u) \<le> 0" by (rule rne_le)
  then have "real_of_int (rne (q / u)) \<le> 0" by simp
  then show ?thesis using u by (simp add: quantize_def mult_le_0_iff)
qed

lemma fl64_le:
  assumes "q \<le> of_int hi" "0 \<le> hi" "hi < 2 ^ 53" "fl64 q = Fin r"
  shows "r \<le> of_int hi"
proof (cases "0 \<le> q")
  case True
  then have "\<exists>r'. fl64 q = Fin r' \<and> of_int 0 \<le> r' \<and> r' \<le> of_int hi"
    using assms by (intro fl64_between) simp_all
  then show ?thesis using assms(4) by auto
next
  case False
  then have q: "q \<noteq> 0" "q \<le> 0" by simp_all
  define u where "u = pow2 (max (ilog2 \<bar>q\<bar>) (- 1022) - 53 + 1)"
  have "0 < u" by (simp add: u_def pow2_pos)
  then have "quantize u q \<le> 0" using q(2) by (rule quantize_nonpos)
  moreover have "r = quantize u q"
    using assms(4) q(1) by (simp add: fl64_def round_to_def overflow_def u_def split: if_splits)
  ultimately show ?thesis using assms(2) by simp
qed

text \<open>The order of numbers against a finite bound, and bounds kept by the operators.\<close>

lemma Fin_le_cases: "Fin a \<le> v \<Longrightarrow> v = PInf \<or> (\<exists>b. v = Fin b \<and> a \<le> b)"
  by (cases v) simp_all

lemma Fin_le_not_less: "Fin a \<le> v \<Longrightarrow> \<not> v < Fin a"
  by (cases v) simp_all

lemma plus_ge:
  assumes "Fin a \<le> v" "Fin b \<le> w" "of_int m \<le> a + b" "- (2 ^ 53) < m" "m < 2 ^ 53"
  shows "Fin (of_int m) \<le> v + w"
proof -
  consider "v = PInf" | a' where "v = Fin a'" "a \<le> a'" using Fin_le_cases [OF assms(1)] by blast
  then show ?thesis
  proof cases
    case 1
    then show ?thesis using assms(2) by (cases w) simp_all
  next
    case 2
    consider "w = PInf" | b' where "w = Fin b'" "b \<le> b'"
      using Fin_le_cases [OF assms(2)] by blast
    then show ?thesis
    proof cases
      case 1
      then show ?thesis using 2 by simp
    next
      case second: 2
      have "of_int m \<le> a' + b'" using 2 second assms(3) by linarith
      then have "Fin (of_int m) \<le> fl64 (a' + b')" using assms(4,5) by (rule fl64_ge)
      then show ?thesis using 2 second by simp
    qed
  qed
qed

lemma times_ge:
  assumes "Fin a \<le> v" "Fin b \<le> w" "0 < a" "0 < b" "of_int m \<le> a * b"
    "- (2 ^ 53) < m" "m < 2 ^ 53"
  shows "Fin (of_int m) \<le> v * w"
proof -
  consider "v = PInf" | a' where "v = Fin a'" "a \<le> a'" using Fin_le_cases [OF assms(1)] by blast
  then show ?thesis
  proof cases
    case 1
    consider "w = PInf" | b' where "w = Fin b'" "b \<le> b'"
      using Fin_le_cases [OF assms(2)] by blast
    then show ?thesis using 1 assms(4) by cases simp_all
  next
    case 2
    consider "w = PInf" | b' where "w = Fin b'" "b \<le> b'"
      using Fin_le_cases [OF assms(2)] by blast
    then show ?thesis
    proof cases
      case 1
      then show ?thesis using 2 assms(3) by simp
    next
      case second: 2
      have "a * b \<le> a' * b'" using 2 second assms(3,4) by (intro mult_mono) simp_all
      then have "of_int m \<le> a' * b'" using assms(5) by linarith
      then have "Fin (of_int m) \<le> fl64 (a' * b')" using assms(6,7) by (rule fl64_ge)
      then show ?thesis using 2 second by simp
    qed
  qed
qed

lemma Math_max_ge: "Fin a \<le> v \<Longrightarrow> Fin a \<le> w \<Longrightarrow> Fin a \<le> Math_max v w"
  by (cases v; cases w) auto

text \<open>Sums, differences and products of integers that are safe integers are exact.\<close>

lemma safe_plus:
  "isSafeInteger (a + b) \<Longrightarrow> Fin (of_int a) + Fin (of_int b) = Fin (of_int (a + b))"
  using fl64_of_int [of "a + b"] by (simp add: isSafeInteger_def)

lemma safe_minus:
  "isSafeInteger (a - b) \<Longrightarrow> Fin (of_int a) - Fin (of_int b) = Fin (of_int (a - b))"
  using fl64_of_int [of "a - b"] by (simp add: isSafeInteger_def minus_number_def)

lemma safe_times:
  "isSafeInteger (a * b) \<Longrightarrow> Fin (of_int a) * Fin (of_int b) = Fin (of_int (a * b))"
  using fl64_of_int [of "a * b"] by (simp add: isSafeInteger_def)

lemma Math_max_of_int: "Math_max (Fin (of_int a)) (Fin (of_int b)) = Fin (of_int (max a b))"
  by (simp add: max_def)

section \<open>Properties of the encoder\<close>

lemma clampSample_cases:
  "clampSample (Fin a) = Fin (max (- 1) (min 1 a))"
  "clampSample PInf = Fin 1"
  "clampSample NInf = Fin (- 1)"
  "clampSample NaN = NaN"
  by (simp_all add: clampSample_def max_def min_def)

lemma clampSample_Fin:
  "v \<noteq> NaN \<Longrightarrow> \<exists>s. clampSample v = Fin s \<and> - 1 \<le> s \<and> s \<le> 1"
  by (cases v) (auto simp add: clampSample_def)

lemma scaleSample_range:
  assumes "- 1 \<le> s" "s \<le> 1"
  shows "\<exists>r. scaleSample (Fin s) = Fin r \<and> - 32768 \<le> r \<and> r \<le> 32767"
proof (cases "s < 0")
  case True
  have "\<exists>r. fl64 (s * 32768) = Fin r \<and> of_int (- 32768) \<le> r \<and> r \<le> of_int 0"
    using assms True by (intro fl64_between) simp_all
  then show ?thesis using True by (auto simp add: scaleSample_def)
next
  case False
  have "\<exists>r. fl64 (s * 32767) = Fin r \<and> of_int 0 \<le> r \<and> r \<le> of_int 32767"
    using assms False by (intro fl64_between) simp_all
  then show ?thesis using False by (auto simp add: scaleSample_def)
qed

lemma wrap16_range: "- 32768 \<le> wrap16 n \<and> wrap16 n \<le> 32767"
proof -
  have "0 \<le> n mod 65536" "n mod 65536 < 65536" by simp_all
  then show ?thesis by (auto simp add: wrap16_def)
qed

lemma wrap16_id:
  assumes "- 32768 \<le> n" "n \<le> 32767"
  shows "wrap16 n = n"
proof (cases "0 \<le> n")
  case True
  then have "n mod 65536 = n" using assms by simp
  then show ?thesis using assms by (simp add: wrap16_def)
next
  case False
  have "(n + 65536) mod 65536 = n + 65536" using assms False
    by (intro mod_pos_pos_trivial) simp_all
  then have "n mod 65536 = n + 65536" by simp
  then show ?thesis using False assms by (simp add: wrap16_def)
qed

lemma trunc_range:
  "- 32768 \<le> r \<Longrightarrow> r \<le> 32767 \<Longrightarrow> - 32768 \<le> trunc r \<and> trunc r \<le> 32767"
  by (auto simp add: trunc_def le_floor_iff floor_le_iff ceiling_le_iff le_ceiling_iff)

lemma ToInt16_range: "- 32768 \<le> ToInt16 v \<and> ToInt16 v \<le> 32767"
  using wrap16_range by (cases v) simp_all

lemma wrap16_trunc:
  "- 32768 \<le> r \<Longrightarrow> r \<le> 32767 \<Longrightarrow> wrap16 (trunc r) = trunc r"
  using trunc_range [of r] by (simp add: wrap16_id)

lemma toInt16Sample_range: "- 32768 \<le> toInt16Sample v \<and> toInt16Sample v \<le> 32767"
  by (simp add: toInt16Sample_def ToInt16_range)

text \<open>
  What the conversion stores for a sample other than NaN: the clamped value, scaled,
  lies between -32768 and 32767, so the store truncates it and does not wrap around.
\<close>

lemma toInt16Sample_clamped:
  assumes "v \<noteq> NaN"
  shows "\<exists>s r. clampSample v = Fin s \<and> - 1 \<le> s \<and> s \<le> 1
           \<and> (if s < 0 then Fin s * Fin 32768 else Fin s * Fin 32767) = Fin r
           \<and> - 32768 \<le> r \<and> r \<le> 32767
           \<and> toInt16Sample v = trunc r"
proof -
  obtain s where s: "clampSample v = Fin s" "- 1 \<le> s" "s \<le> 1"
    using clampSample_Fin [OF assms] by blast
  obtain r where r: "scaleSample (Fin s) = Fin r" "- 32768 \<le> r" "r \<le> 32767"
    using scaleSample_range [OF s(2,3)] by blast
  have "toInt16Sample v = trunc r"
    using s r by (simp add: toInt16Sample_def wrap16_trunc)
  moreover have "(if s < 0 then Fin s * Fin 32768 else Fin s * Fin 32767) = Fin r"
    using r(1) by (simp add: scaleSample_def)
  ultimately show ?thesis using s r by blast
qed

text \<open>The bytes of the blob, read back as 16-bit integers, are the integers stored.\<close>

lemma length_uint8View: "length (uint8View ns) = 2 * length ns"
  by (induction ns) (simp_all add: uint8View_def int16Bytes_def)

lemma uint8View_Cons: "uint8View (n # ns) = nat (n mod 256) # nat ((n div 256) mod 256) # uint8View ns"
  by (simp add: uint8View_def int16Bytes_def)

lemma int16At_Cons_Suc: "int16At (a # b # bytes) (Suc i) = int16At bytes i"
  by (simp add: int16At_def)

lemma int16At_head:
  "int16At (nat (n mod 256) # nat ((n div 256) mod 256) # bytes) 0 = wrap16 n"
proof -
  have "n mod (256 * 256) = 256 * (n div 256 mod 256) + n mod 256"
    by (rule zmod_zmult2_eq) simp
  then have "n mod 256 + 256 * (n div 256 mod 256) = n mod 65536" by simp
  then have "int16At (nat (n mod 256) # nat ((n div 256) mod 256) # bytes) 0 = wrap16 (n mod 65536)"
    by (simp add: int16At_def)
  then show ?thesis by (simp add: wrap16_def)
qed

lemma int16At_uint8View:
  "i < length ns \<Longrightarrow> int16At (uint8View ns) i = wrap16 (ns ! i)"
proof (induction ns arbitrary: i)
  case Nil
  then show ?case by simp
next
  case (Cons n ns)
  show ?case
  proof (cases i)
    case 0
    then show ?thesis by (simp add: uint8View_Cons int16At_head)
  next
    case (Suc j)
    then have "j < length ns" using Cons.prems by simp
    then have "int16At (uint8View ns) j = wrap16 (ns ! j)" by (rule Cons.IH)
    then show ?thesis using Suc by (simp add: uint8View_Cons int16At_Cons_Suc)
  qed
qed

lemma int16At_pcm:
  assumes "i < length samples"
  shows "int16At (uint8View (map toInt16Sample samples)) i = toInt16Sample (samples ! i)"
proof -
  have "int16At (uint8View (map toInt16Sample samples)) i =
          wrap16 (map toInt16Sample samples ! i)"
    using assms by (intro int16At_uint8View) simp
  also have "\<dots> = wrap16 (toInt16Sample (samples ! i))" using assms by simp
  also have "\<dots> = toInt16Sample (samples ! i)"
    using toInt16Sample_range [of "samples ! i"] by (intro wrap16_id) simp_all
  finally show ?thesis .
qed

text \<open>
  The clamp does not bring every sample into \<open>[-1, 1]\<close>: \<open>Math.max\<close> and \<open>Math.min\<close>
  return NaN for NaN, so a NaN sample leaves the clamp as NaN, which is not between
  \<open>-1\<close> and \<open>1\<close>, and is stored as 0. A frame holds such a sample at 16000 Hz when it
  is given with one, and at another rate when it holds an infinite sample: the
  resampler multiplies it by a weight of 0.
\<close>

theorem nan_sample_not_clamped:
  "downsampleTo16k [NaN] (Fin 16000) = Inr [NaN]
   \<and> downsampleTo16k [PInf, Fin 0] (Fin 32000) = Inr [NaN]
   \<and> clampSample NaN = NaN
   \<and> \<not> (Fin (- 1) \<le> clampSample NaN \<and> clampSample NaN \<le> Fin 1)
   \<and> createPcmBlob [PInf, Fin 0] (Fin 32000) =
        Inr \<lparr> pcmBytes = [0, 0], mimeType = ''audio/pcm;rate=16000'' \<rparr>"
proof -
  have a: "downsampleTo16k [NaN] (Fin 16000) = Inr [NaN]"
    by (simp add: downsampleTo16k_def)
  have b: "downsampleTo16k [PInf, Fin 0] (Fin 32000) = Inr [NaN]"
    by (simp add: downsampleTo16k_def Let_def downsampleLoop.simps interpolate_def orZero_def
        trunc_def fl_eval)
  have c: "clampSample NaN = NaN" by (simp add: clampSample_def)
  have d: "uint8View (map toInt16Sample [NaN]) = [0, 0]"
    by (simp add: toInt16Sample_def c scaleSample_def uint8View_def int16Bytes_def)
  show ?thesis using a b c d by (simp add: createPcmBlob_def)
qed

text \<open>
  C7, amended. The clamp takes a finite sample \<open>a\<close> to \<open>max (-1) (min 1 a)\<close>, the
  infinities to \<open>1\<close> and \<open>-1\<close>, and leaves NaN as it is. Every sample other than NaN is
  so clamped to a value \<open>s\<close> with \<open>-1 \<le> s \<le> 1\<close>; a negative \<open>s\<close> is multiplied by
  32768, any other by 32767; the product lies between -32768 and 32767, so the store
  into the \<open>Int16Array\<close> truncates it and does not wrap around: the infinities are
  stored as 32767 and -32768. NaN is stored as 0. For every frame and rate for which
  \<open>createPcmBlob\<close> returns a blob, its bytes are those of the conversions of the
  resampled samples, two for each, and the 16-bit integer they hold at each index is
  the conversion of the sample at that index and lies between -32768 and 32767.
\<close>

theorem pcm_sample_range:
  "clampSample (Fin a) = Fin (max (- 1) (min 1 a))
   \<and> clampSample PInf = Fin 1 \<and> clampSample NInf = Fin (- 1)
   \<and> clampSample NaN = NaN
   \<and> toInt16Sample PInf = 32767 \<and> toInt16Sample NInf = - 32768 \<and> toInt16Sample NaN = 0
   \<and> (v \<noteq> NaN \<longrightarrow>
        (\<exists>s r. clampSample v = Fin s \<and> - 1 \<le> s \<and> s \<le> 1
           \<and> (if s < 0 then Fin s * Fin 32768 else Fin s * Fin 32767) = Fin r
           \<and> - 32768 \<le> r \<and> r \<le> 32767
           \<and> toInt16Sample v = trunc r))
   \<and> (createPcmBlob data inputSampleRate = Inr blob \<longrightarrow>
        (\<exists>samples. downsampleTo16k data inputSampleRate = Inr samples
           \<and> pcmBytes blob = uint8View (map toInt16Sample samples)
           \<and> length (pcmBytes blob) = 2 * length samples
           \<and> (\<forall>i < length samples.
                 int16At (pcmBytes blob) i = toInt16Sample (samples ! i)
                 \<and> - 32768 \<le> int16At (pcmBytes blob) i
                 \<and> int16At (pcmBytes blob) i \<le> 32767)))"
proof -
  have nan: "toInt16Sample NaN = 0"
    by (simp add: toInt16Sample_def clampSample_def scaleSample_def)
  have inf: "toInt16Sample PInf = 32767" "toInt16Sample NInf = - 32768"
    by (simp_all add: toInt16Sample_def clampSample_def scaleSample_def fl_eval wrap16_def
        trunc_def)
  have blob: "\<exists>samples. downsampleTo16k data inputSampleRate = Inr samples
           \<and> pcmBytes blob = uint8View (map toInt16Sample samples)
           \<and> length (pcmBytes blob) = 2 * length samples
           \<and> (\<forall>i < length samples.
                 int16At (pcmBytes blob) i = toInt16Sample (samples ! i)
                 \<and> - 32768 \<le> int16At (pcmBytes blob) i
                 \<and> int16At (pcmBytes blob) i \<le> 32767)"
    if made: "createPcmBlob data inputSampleRate = Inr blob"
  proof -
    obtain samples where samples: "downsampleTo16k data inputSampleRate = Inr samples"
      "pcmBytes blob = uint8View (map toInt16Sample samples)"
      using made by (auto simp add: createPcmBlob_def split: sum.splits)
    have "length (pcmBytes blob) = 2 * length samples"
      by (simp add: samples(2) length_uint8View)
    moreover have "int16At (pcmBytes blob) i = toInt16Sample (samples ! i)
                 \<and> - 32768 \<le> int16At (pcmBytes blob) i
                 \<and> int16At (pcmBytes blob) i \<le> 32767" if "i < length samples" for i
      using that toInt16Sample_range [of "samples ! i"] by (simp add: samples(2) int16At_pcm)
    ultimately show ?thesis using samples by blast
  qed
  show ?thesis
    using nan inf blob toInt16Sample_clamped [of v] by (simp add: clampSample_cases)
qed

theorem pcm_sample_range_witness:
  "Fin (- 3) \<noteq> NaN
   \<and> clampSample (Fin (- 3)) = Fin (- 1) \<and> Fin (- 1) * Fin 32768 = Fin (- 32768)
   \<and> createPcmBlob [Fin 2, Fin (- 3), Fin (1 / 2), Fin (- 1 / 2), NaN, PInf, NInf] (Fin 16000) =
        Inr \<lparr> pcmBytes = [255, 127, 0, 128, 255, 63, 0, 192, 0, 0, 255, 127, 0, 128],
              mimeType = ''audio/pcm;rate=16000'' \<rparr>
   \<and> map toInt16Sample [Fin 2, Fin (- 3), Fin (1 / 2), Fin (- 1 / 2), NaN, PInf, NInf] =
        [32767, - 32768, 16383, - 16384, 0, 32767, - 32768]
   \<and> (1::nat) < length [Fin 2, Fin (- 3), Fin (1 / 2), Fin (- 1 / 2), NaN, PInf, NInf]
   \<and> int16At [255, 127, 0, 128, 255, 63, 0, 192, 0, 0, 255, 127, 0, 128] 1 = - 32768"
  using pcm_sample_range [of "- 3" "Fin (- 3)"
      "[Fin 2, Fin (- 3), Fin (1 / 2), Fin (- 1 / 2), NaN, PInf, NInf]" "Fin 16000"
      "\<lparr> pcmBytes = [255, 127, 0, 128, 255, 63, 0, 192, 0, 0, 255, 127, 0, 128],
         mimeType = ''audio/pcm;rate=16000'' \<rparr>"]
  by (simp add: createPcmBlob_def downsampleTo16k_def uint8View_def int16Bytes_def
      toInt16Sample_def clampSample_def scaleSample_def fl_eval wrap16_def trunc_def int16At_def)

section \<open>Properties of the combo/score engine\<close>

lemma gameState_spawnParticle: "gameState (spawnParticle env app) = gameState app"
  by (simp add: spawnParticle_def)

lemma gameState_funpow_spawnParticle: "gameState ((spawnParticle env ^^ n) app) = gameState app"
  by (induction n) (simp_all add: gameState_spawnParticle)

lemma gameState_spawnBurst: "gameState (spawnBurst env rendered app) = gameState app"
  by (simp add: spawnBurst_def gameState_funpow_spawnParticle)

lemma gameState_funpow_spawnBurst:
  "gameState ((spawnBurst env rendered ^^ n) app) = gameState app"
  by (induction n) (simp_all add: gameState_spawnBurst)

lemma gameState_triggerBo:
  "gameState (triggerBo env rendered count now app) =
     updateGameState (Fin (of_nat count)) (Fin (of_int now)) (gameState app)"
  by (simp add: triggerBo_def gameState_funpow_spawnBurst)

text \<open>
  The update in exact integer arithmetic: on a state whose fields are integers, when
  the difference of the times, the new combo, \<open>count * 100\<close>, the points and the new
  score are safe integers, no operation of the updater rounds.
\<close>

lemma updateGameState_exact:
  assumes newCombo: "newCombo = (if now - l < 2000 then c + count else 1)"
    and safe: "isSafeInteger (now - l)" "isSafeInteger newCombo" "isSafeInteger (count * 100)"
      "isSafeInteger (count * 100 * newCombo)" "isSafeInteger (s + count * 100 * newCombo)"
  shows "updateGameState (Fin (of_int count)) (Fin (of_int now))
           \<lparr> score = Fin (of_int s), combo = Fin (of_int c), maxCombo = Fin (of_int m),
             lastBoTime = Fin (of_int l) \<rparr> =
         \<lparr> score = Fin (of_int (s + count * 100 * newCombo)), combo = Fin (of_int newCombo),
           maxCombo = Fin (of_int (max m newCombo)), lastBoTime = Fin (of_int now) \<rparr>"
proof -
  have diff: "Fin (of_int now) - Fin (of_int l) = Fin (of_int (now - l))"
    using safe(1) by (rule safe_minus)
  have "(Fin (of_int (now - l)) < Fin 2000) = (real_of_int (now - l) < real_of_int 2000)"
    by simp
  also have "\<dots> = (now - l < 2000)" by (simp only: of_int_less_iff)
  finally have isCombo: "(Fin (of_int now) - Fin (of_int l) < Fin 2000) = (now - l < 2000)"
    unfolding diff .
  have nc: "(if now - l < 2000 then Fin (of_int c) + Fin (of_int count) else Fin 1) =
              Fin (of_int newCombo)"
  proof (cases "now - l < 2000")
    case True
    then have "isSafeInteger (c + count)" using safe(2) by (simp add: newCombo)
    then have "Fin (of_int c) + Fin (of_int count) = Fin (of_int (c + count))"
      by (rule safe_plus)
    then show ?thesis using True by (simp only: newCombo if_True)
  next
    case False
    then show ?thesis by (simp add: newCombo)
  qed
  have hundred: "Fin (of_int count) * Fin (of_int 100) = Fin (of_int (count * 100))"
    using safe(3) by (rule safe_times)
  have points: "Fin (of_int (count * 100)) * Fin (of_int newCombo) =
                  Fin (of_int (count * 100 * newCombo))"
    using safe(4) by (rule safe_times)
  have total: "Fin (of_int s) + Fin (of_int (count * 100 * newCombo)) =
                 Fin (of_int (s + count * 100 * newCombo))"
    using safe(5) by (rule safe_plus)
  have h: "Fin (of_int count) * Fin 100 = Fin (of_int (count * 100))"
    using hundred by simp
  have "updateGameState (Fin (of_int count)) (Fin (of_int now))
           \<lparr> score = Fin (of_int s), combo = Fin (of_int c), maxCombo = Fin (of_int m),
             lastBoTime = Fin (of_int l) \<rparr> =
        \<lparr> score = Fin (of_int s) + Fin (of_int count) * Fin 100 *
                     (if now - l < 2000 then Fin (of_int c) + Fin (of_int count) else Fin 1),
          combo = (if now - l < 2000 then Fin (of_int c) + Fin (of_int count) else Fin 1),
          maxCombo = Math_max (Fin (of_int m))
                     (if now - l < 2000 then Fin (of_int c) + Fin (of_int count) else Fin 1),
          lastBoTime = Fin (of_int now) \<rparr>"
    by (simp only: updateGameState_def Let_def GameState.simps isCombo)
  then show ?thesis by (simp only: nc h points total Math_max_of_int)
qed

text \<open>
  The update of the score rounds once the sum is not a safe integer. In the state with
  score \<open>2^53 - 1 = 9007199254740991\<close>, a trigger with one match at time 5000 (more
  than 2000 ms after the last one, at 0) resets the combo to 1 and awards
  \<open>1 * 100 * 1 = 100\<close> points; the new score is 9007199254741092 and not
  \<open>9007199254740991 + 100 = 9007199254741091\<close>.
\<close>

theorem score_sum_rounds:
  "combo (gameState (triggerBo exampleEnv initialGameState 1 5000
       (initialApp\<lparr> gameState := \<lparr> score = Fin 9007199254740991, combo = Fin 1,
                                     maxCombo = Fin 1, lastBoTime = Fin 0 \<rparr> \<rparr>))) = Fin 1
   \<and> score (gameState (triggerBo exampleEnv initialGameState 1 5000
       (initialApp\<lparr> gameState := \<lparr> score = Fin 9007199254740991, combo = Fin 1,
                                     maxCombo = Fin 1, lastBoTime = Fin 0 \<rparr> \<rparr>))) =
       Fin 9007199254741092
   \<and> (9007199254740991 + 1 * 100 * 1 :: real) = 9007199254741091
   \<and> score (gameState (triggerBo exampleEnv initialGameState 1 5000
       (initialApp\<lparr> gameState := \<lparr> score = Fin 9007199254740991, combo = Fin 1,
                                     maxCombo = Fin 1, lastBoTime = Fin 0 \<rparr> \<rparr>))) \<noteq>
       Fin (9007199254740991 + 1 * 100 * 1)"
  by (simp add: gameState_triggerBo updateGameState_def Let_def fl_eval)

text \<open>
  C1, amended. A trigger with \<open>count\<close> matches at time \<open>now\<close> computes, with the
  operators of JavaScript on numbers: the new combo, \<open>previousCombo + count\<close> when
  \<open>now - lastBoTime < 2000\<close> and otherwise 1, whatever \<open>count\<close> is; the points
  \<open>count * 100 * newCombo\<close>; the score plus the points; the larger of \<open>maxCombo\<close> and
  the new combo; and it stores \<open>now\<close> as the time of the last trigger. On a state whose
  fields are the integers \<open>s\<close>, \<open>c\<close>, \<open>m\<close>, \<open>l\<close>, when \<open>now - l\<close>, the new combo,
  \<open>count * 100\<close>, the points and the new score are safe integers, the results are these
  values exactly.
\<close>

theorem trigger_update:
  "(combo (gameState (triggerBo env rendered count now app)) =
      (if Fin (of_int now) - lastBoTime (gameState app) < Fin 2000
       then combo (gameState app) + Fin (of_nat count) else Fin 1)
    \<and> score (gameState (triggerBo env rendered count now app)) =
        score (gameState app)
          + Fin (of_nat count) * Fin 100 * combo (gameState (triggerBo env rendered count now app))
    \<and> maxCombo (gameState (triggerBo env rendered count now app)) =
        Math_max (maxCombo (gameState app))
          (combo (gameState (triggerBo env rendered count now app)))
    \<and> lastBoTime (gameState (triggerBo env rendered count now app)) = Fin (of_int now))
   \<and> (gameState app = \<lparr> score = Fin (of_int s), combo = Fin (of_int c),
                         maxCombo = Fin (of_int m), lastBoTime = Fin (of_int l) \<rparr>
      \<and> newCombo = (if now - l < 2000 then c + int count else 1)
      \<and> points = int count * 100 * newCombo
      \<and> isSafeInteger (now - l) \<and> isSafeInteger newCombo \<and> isSafeInteger (int count * 100)
      \<and> isSafeInteger points \<and> isSafeInteger (s + points)
      \<longrightarrow> gameState (triggerBo env rendered count now app) =
            \<lparr> score = Fin (of_int (s + points)), combo = Fin (of_int newCombo),
              maxCombo = Fin (of_int (max m newCombo)), lastBoTime = Fin (of_int now) \<rparr>)"
proof -
  have exact: "gameState (triggerBo env rendered count now app) =
            \<lparr> score = Fin (of_int (s + points)), combo = Fin (of_int newCombo),
              maxCombo = Fin (of_int (max m newCombo)), lastBoTime = Fin (of_int now) \<rparr>"
    if g: "gameState app = \<lparr> score = Fin (of_int s), combo = Fin (of_int c),
                         maxCombo = Fin (of_int m), lastBoTime = Fin (of_int l) \<rparr>"
      and nc: "newCombo = (if now - l < 2000 then c + int count else 1)"
      and pts: "points = int count * 100 * newCombo"
      and safe: "isSafeInteger (now - l)" "isSafeInteger newCombo" "isSafeInteger (int count * 100)"
        "isSafeInteger points" "isSafeInteger (s + points)"
  proof -
    have "updateGameState (Fin (of_int (int count))) (Fin (of_int now))
           \<lparr> score = Fin (of_int s), combo = Fin (of_int c), maxCombo = Fin (of_int m),
             lastBoTime = Fin (of_int l) \<rparr> =
         \<lparr> score = Fin (of_int (s + int count * 100 * newCombo)), combo = Fin (of_int newCombo),
           maxCombo = Fin (of_int (max m newCombo)), lastBoTime = Fin (of_int now) \<rparr>"
      using nc safe unfolding pts by (rule updateGameState_exact)
    then show ?thesis by (simp add: gameState_triggerBo g pts)
  qed
  have "combo (gameState (triggerBo env rendered count now app)) =
      (if Fin (of_int now) - lastBoTime (gameState app) < Fin 2000
       then combo (gameState app) + Fin (of_nat count) else Fin 1)
    \<and> score (gameState (triggerBo env rendered count now app)) =
        score (gameState app)
          + Fin (of_nat count) * Fin 100 * combo (gameState (triggerBo env rendered count now app))
    \<and> maxCombo (gameState (triggerBo env rendered count now app)) =
        Math_max (maxCombo (gameState app))
          (combo (gameState (triggerBo env rendered count now app)))
    \<and> lastBoTime (gameState (triggerBo env rendered count now app)) = Fin (of_int now)"
    by (simp add: gameState_triggerBo updateGameState_def Let_def)
  then show ?thesis using exact by blast
qed

theorem trigger_update_witness:
  "gameState (initialApp\<lparr> gameState := \<lparr> score = Fin 100, combo = Fin 1, maxCombo = Fin 1,
                                          lastBoTime = Fin 5000 \<rparr> \<rparr>) =
     \<lparr> score = Fin (of_int 100), combo = Fin (of_int 1), maxCombo = Fin (of_int 1),
       lastBoTime = Fin (of_int 5000) \<rparr>
   \<and> (3::int) = (if 5500 - 5000 < (2000::int) then 1 + int 2 else 1)
   \<and> (600::int) = int 2 * 100 * 3
   \<and> isSafeInteger (5500 - 5000) \<and> isSafeInteger 3 \<and> isSafeInteger (int 2 * 100)
   \<and> isSafeInteger 600 \<and> isSafeInteger (100 + 600)
   \<and> gameState (triggerBo exampleEnv initialGameState 2 5500
        (initialApp\<lparr> gameState := \<lparr> score = Fin 100, combo = Fin 1, maxCombo = Fin 1,
                                      lastBoTime = Fin 5000 \<rparr> \<rparr>)) =
       \<lparr> score = Fin 700, combo = Fin 3, maxCombo = Fin 3, lastBoTime = Fin 5500 \<rparr>"
  using trigger_update [of exampleEnv initialGameState 2 5500
      "initialApp\<lparr> gameState := \<lparr> score = Fin 100, combo = Fin 1, maxCombo = Fin 1,
                                    lastBoTime = Fin 5000 \<rparr> \<rparr>" 100 1 1 5000 3 600]
  by (simp add: isSafeInteger_def)

text \<open>
  The scoring example at time 0. The initial state has \<open>lastBoTime = 0\<close>, so a first
  trigger at \<open>t = 0\<close> is less than 2000 ms after it and continues the combo: it gives
  score 200 and combo 2, and the second trigger at 500 gives combo 4 and score 1000.
\<close>

theorem first_trigger_at_time_zero:
  "score (updateGameState (Fin 1) (Fin 0) initialGameState) = Fin 200
   \<and> combo (updateGameState (Fin 1) (Fin 0) initialGameState) = Fin 2
   \<and> score (updateGameState (Fin 1) (Fin 0) initialGameState) \<noteq> Fin 100
   \<and> combo (updateGameState (Fin 2) (Fin 500) (updateGameState (Fin 1) (Fin 0) initialGameState))
       = Fin 4
   \<and> score (updateGameState (Fin 2) (Fin 500) (updateGameState (Fin 1) (Fin 0) initialGameState))
       = Fin 1000"
  by (simp add: updateGameState_def initialGameState_def Let_def fl_eval)

lemma trigger_after_gap:
  assumes "2000 \<le> t"
  shows "updateGameState (Fin 1) (Fin (of_int t)) initialGameState =
           \<lparr> score = Fin 100, combo = Fin 1, maxCombo = Fin 1, lastBoTime = Fin (of_int t) \<rparr>"
proof -
  have "real_of_int 2000 \<le> real_of_int t" using assms by (simp only: of_int_le_iff)
  then have "Fin (of_int 2000) \<le> fl64 (of_int t)" by (intro fl64_ge) simp_all
  then have "Fin 2000 \<le> fl64 (of_int t)" by simp
  then have "\<not> fl64 (of_int t) < Fin 2000" by (rule Fin_le_not_less)
  moreover have "Fin (of_int t) - Fin 0 = fl64 (of_int t)" by (simp add: minus_number_def)
  ultimately have reset: "\<not> Fin (of_int t) - Fin 0 < Fin 2000" by simp
  have points: "Fin 0 + Fin 1 * Fin 100 * Fin 1 = Fin 100" by (simp add: fl_eval)
  show ?thesis using reset points by (simp add: updateGameState_def initialGameState_def Let_def)
qed

lemma trigger_within_window:
  "updateGameState (Fin 2) (Fin (of_int (t + 500)))
     \<lparr> score = Fin 100, combo = Fin 1, maxCombo = Fin 1, lastBoTime = Fin (of_int t) \<rparr> =
   \<lparr> score = Fin 700, combo = Fin 3, maxCombo = Fin 3, lastBoTime = Fin (of_int (t + 500)) \<rparr>"
proof -
  have "Fin (of_int (t + 500)) - Fin (of_int t) = fl64 500" by (simp add: minus_number_def)
  moreover have "fl64 500 = Fin 500" by (simp add: fl_eval)
  ultimately have continue: "Fin (of_int (t + 500)) - Fin (of_int t) < Fin 2000" by simp
  have newCombo: "Fin 1 + Fin 2 = Fin 3" by (simp add: fl_eval)
  have points: "Fin 100 + Fin 2 * Fin 100 * Fin 3 = Fin 700" by (simp add: fl_eval)
  show ?thesis using continue newCombo points by (simp add: updateGameState_def Let_def)
qed

text \<open>
  C5, amended. Starting from the initial state, a trigger with one match at a time
  \<open>t\<close> of at least 2000 (the clock is \<open>Date.now()\<close>, milliseconds since 1970) gives
  score 100 and combo 1, and a following trigger with two matches 500 ms later
  continues the combo: the new combo is \<open>1 + 2 = 3\<close>, the points are
  \<open>2 * 100 * 3 = 600\<close> and the score is 700.
\<close>

theorem scoring_example:
  "2000 \<le> t \<Longrightarrow>
     score (updateGameState (Fin 1) (Fin (of_int t)) initialGameState) = Fin 100
     \<and> combo (updateGameState (Fin 1) (Fin (of_int t)) initialGameState) = Fin 1
     \<and> combo (updateGameState (Fin 2) (Fin (of_int (t + 500)))
          (updateGameState (Fin 1) (Fin (of_int t)) initialGameState)) = Fin (1 + 2)
     \<and> score (updateGameState (Fin 2) (Fin (of_int (t + 500)))
          (updateGameState (Fin 1) (Fin (of_int t)) initialGameState)) = Fin (100 + 2 * 100 * 3)
     \<and> score (updateGameState (Fin 2) (Fin (of_int (t + 500)))
          (updateGameState (Fin 1) (Fin (of_int t)) initialGameState)) = Fin 700"
proof -
  assume "2000 \<le> t"
  then have first: "updateGameState (Fin 1) (Fin (of_int t)) initialGameState =
      \<lparr> score = Fin 100, combo = Fin 1, maxCombo = Fin 1, lastBoTime = Fin (of_int t) \<rparr>"
    by (rule trigger_after_gap)
  show ?thesis unfolding first trigger_within_window by simp
qed

theorem scoring_example_witness:
  "(2000::int) \<le> 2000
   \<and> score (updateGameState (Fin 1) (Fin 2000) initialGameState) = Fin 100
   \<and> combo (updateGameState (Fin 1) (Fin 2000) initialGameState) = Fin 1
   \<and> score (updateGameState (Fin 2) (Fin 2500)
        (updateGameState (Fin 1) (Fin 2000) initialGameState)) = Fin 700"
  using scoring_example [of 2000] by simp

text \<open>The invariant: a score that is not negative, a combo and a highest combo of at least 1.\<close>

lemma gameInvariant_updateGameState:
  assumes inv: "gameInvariant g" and count: "Fin 1 \<le> count"
  shows "gameInvariant (updateGameState count now g)"
proof -
  define newCombo where
    "newCombo = (if now - lastBoTime g < Fin 2000 then combo g + count else Fin 1)"
  have s: "Fin 0 \<le> score g" and c: "Fin 1 \<le> combo g" and m: "Fin 1 \<le> maxCombo g"
    using inv by (simp_all add: gameInvariant_def)
  have "Fin (of_int 1) \<le> combo g + count"
    using c count by (rule plus_ge) simp_all
  then have nc: "Fin 1 \<le> newCombo" by (simp add: newCombo_def)
  have "Fin (of_int 100) \<le> count * Fin 100"
    using count by (rule times_ge [where b = 100]) simp_all
  then have "Fin 100 \<le> count * Fin 100" by simp
  then have "Fin (of_int 0) \<le> count * Fin 100 * newCombo"
    using nc by (rule times_ge) simp_all
  then have "Fin 0 \<le> count * Fin 100 * newCombo" by simp
  with s have "Fin (of_int 0) \<le> score g + count * Fin 100 * newCombo"
    by (rule plus_ge) simp_all
  then have sc: "Fin 0 \<le> score g + count * Fin 100 * newCombo" by simp
  have mc: "Fin 1 \<le> Math_max (maxCombo g) newCombo" using m nc by (rule Math_max_ge)
  have "updateGameState count now g =
          \<lparr> score = score g + count * Fin 100 * newCombo, combo = newCombo,
            maxCombo = Math_max (maxCombo g) newCombo, lastBoTime = now \<rparr>"
    by (simp add: updateGameState_def Let_def newCombo_def)
  then show ?thesis using sc nc mc by (simp add: gameInvariant_def)
qed

lemma gameState_onmessage:
  "gameState (onmessage env rendered transcription now app) = gameState app
   \<or> (\<exists>count. 1 \<le> count \<and>
         gameState (onmessage env rendered transcription now app) =
           gameState (triggerBo env rendered count now app))"
proof (cases "\<exists>t matches. transcription = Some t \<and> t \<noteq> [] \<and> String_match t = Some matches
                 \<and> 0 < length matches")
  case True
  then obtain t matches where "transcription = Some t" "t \<noteq> []" "String_match t = Some matches"
    "0 < length matches" by blast
  then have "gameState (onmessage env rendered transcription now app) =
      gameState (triggerBo env rendered (length matches) now app) \<and> 1 \<le> length matches"
    by (cases matches) (simp_all add: onmessage_def)
  then show ?thesis by blast
next
  case False
  then have "onmessage env rendered transcription now app = app"
    by (auto simp add: onmessage_def split: option.splits)
  then show ?thesis by simp
qed

lemma gameState_handle:
  "gameState (handle env rendered ev app) = gameState app
   \<or> (\<exists>count now. 1 \<le> count \<and>
         gameState (handle env rendered ev app) =
           gameState (triggerBo env rendered count now app))"
proof (cases ev)
  case (ServerMessage transcription now)
  then show ?thesis using gameState_onmessage [of env rendered transcription now app] by auto
next
  case AnimationFrame
  then show ?thesis by simp
qed

lemma gameInvariant_triggerBo:
  assumes "gameInvariant (gameState app)" "1 \<le> count"
  shows "gameInvariant (gameState (triggerBo env rendered count now app))"
proof -
  have "real_of_int 1 \<le> real count" using assms(2) by simp
  then have "Fin 1 \<le> Fin (of_nat count)" by simp
  then show ?thesis using assms(1) by (simp add: gameState_triggerBo gameInvariant_updateGameState)
qed

lemma gameInvariant_handle:
  "gameInvariant (gameState app) \<Longrightarrow> gameInvariant (gameState (handle env rendered ev app))"
  using gameState_handle [of env rendered ev app]
  by (auto simp add: gameInvariant_triggerBo)

lemma gameInvariant_foldl_handle:
  "gameInvariant (gameState app) \<Longrightarrow>
     gameInvariant (gameState (foldl (\<lambda>a e. handle env rendered e a) app events))"
  by (induction events arbitrary: app) (simp_all add: gameInvariant_handle)

lemma gameInvariant_initial: "gameInvariant initialGameState"
  by (simp add: gameInvariant_def initialGameState_def)

lemma updateGameState_example:
  "updateGameState (Fin 2) (Fin 5000) initialGameState =
     \<lparr> score = Fin 200, combo = Fin 1, maxCombo = Fin 1, lastBoTime = Fin 5000 \<rparr>"
  by (simp add: updateGameState_def initialGameState_def Let_def fl_eval)

text \<open>
  C9. The predicate \<open>0 \<le> score \<and> 1 \<le> combo \<and> 1 \<le> maxCombo\<close> holds in the initial
  state and is kept by every trigger with at least one match. The state is changed by
  the trigger operation only: an event either leaves it as it is or changes it as a
  call of \<open>triggerBo\<close> with at least one match does. So the predicate holds after
  every sequence of events.
\<close>

theorem game_invariant:
  "gameInvariant initialGameState
   \<and> (gameInvariant g \<and> Fin 1 \<le> k \<longrightarrow> gameInvariant (updateGameState k time g))
   \<and> (gameInvariant (gameState app) \<and> 1 \<le> count \<longrightarrow>
        gameInvariant (gameState (triggerBo env rendered count now app)))
   \<and> (gameState (handle env rendered ev app) = gameState app
        \<or> (\<exists>n t. 1 \<le> n \<and>
              gameState (handle env rendered ev app) = gameState (triggerBo env rendered n t app)))
   \<and> gameInvariant (gameState (run env initialApp events))"
proof -
  have "gameInvariant (gameState initialApp)"
    by (simp add: initialApp_def gameInvariant_initial)
  then have "gameInvariant (gameState (run env initialApp events))"
    unfolding run_def by (rule gameInvariant_foldl_handle)
  moreover have "gameState (handle env rendered ev app) = gameState app
        \<or> (\<exists>n t. 1 \<le> n \<and>
              gameState (handle env rendered ev app) = gameState (triggerBo env rendered n t app))"
    by (rule gameState_handle)
  ultimately show ?thesis
    by (simp add: gameInvariant_initial gameInvariant_updateGameState gameInvariant_triggerBo)
qed

theorem game_invariant_witness:
  "gameInvariant initialGameState \<and> Fin 1 \<le> Fin 2 \<and> (1::nat) \<le> 2
   \<and> gameInvariant (updateGameState (Fin 2) (Fin 5000) initialGameState)
   \<and> score (updateGameState (Fin 2) (Fin 5000) initialGameState) = Fin 200
   \<and> gameInvariant (gameState initialApp)
   \<and> gameInvariant (gameState (triggerBo exampleEnv initialGameState 2 5000 initialApp))
   \<and> gameState (triggerBo exampleEnv initialGameState 2 5000 initialApp) =
        \<lparr> score = Fin 200, combo = Fin 1, maxCombo = Fin 1, lastBoTime = Fin 5000 \<rparr>"
  using game_invariant [of initialGameState "Fin 2" "Fin 5000" initialApp 2 exampleEnv
      initialGameState 5000]
  by (simp add: gameState_triggerBo updateGameState_example initialApp_def)

section \<open>Properties of the keyword spotter\<close>

lemma ascii_eq_Nil [simp]: "(ascii s = []) = (s = [])"
  by (simp add: ascii_def)

lemma String_match_bo: "String_match (ascii ''bo'') = Some [ascii ''bo'']"
  by code_simp

lemma String_match_bo_bo: "String_match (ascii ''bo bo'') = Some [ascii ''bo'', ascii ''bo'']"
  by code_simp

text \<open>
  C3. The pattern is case-insensitive and bounded by \<open>\b\<close>, but \<open>\b\<close> is decided by the
  ASCII word characters, and the accented o is not one of them: after the first
  alternative there is a boundary only if a word character follows. On the text of
  three accented trigger words separated by spaces (units 98 243 32 98 243 32 98 243)
  the pattern does not match at all, \<open>match\<close> returns \<open>null\<close> and the count is 0, not
  3; the unaccented text gives 3.
\<close>

theorem accented_trigger_word_not_matched:
  "String_match [98, 243, 32, 98, 243, 32, 98, 243] = None
   \<and> matchCount [98, 243, 32, 98, 243, 32, 98, 243] = 0
   \<and> matchCount (ascii ''bo bo bo'') = 3"
  by code_simp

section \<open>Properties of the burst\<close>

lemma particles_spawnParticle:
  "particles (spawnParticle env app) =
     particles app @ [newParticle env (randomCalls app) (particleIdCounter app)]"
  by (simp add: spawnParticle_def)

lemma length_funpow_spawnParticle:
  "length (particles ((spawnParticle env ^^ n) app)) = length (particles app) + n"
  by (induction n) (simp_all add: particles_spawnParticle)

lemma length_spawnBurst:
  "length (particles (spawnBurst env rendered app)) =
     length (particles app) + iterations (particleCount rendered)"
  by (simp add: spawnBurst_def length_funpow_spawnParticle)

lemma length_funpow_spawnBurst:
  "length (particles ((spawnBurst env rendered ^^ n) app)) =
     length (particles app) + n * iterations (particleCount rendered)"
  by (induction n) (simp_all add: length_spawnBurst)

lemma length_particles_triggerBo:
  "length (particles (triggerBo env rendered count now app)) =
     length (particles app) + count * iterations (particleCount rendered)"
  by (simp add: triggerBo_def length_funpow_spawnBurst)

text \<open>
  The bound of the inner loop is a finite number of at most 15, NaN or \<open>-Infinity\<close>,
  so the loop ends; for a combo that is an integer of at least 1 it runs
  \<open>5 + min combo 10\<close> times.
\<close>

lemma particleCount_le:
  assumes "particleCount rendered = Fin b"
  shows "b \<le> 15"
proof -
  have bound: "b \<le> 15" if le: "q \<le> real_of_int 15" and eq: "fl64 q = Fin b" for q
  proof -
    have "b \<le> real_of_int 15" by (rule fl64_le [OF le _ _ eq]) simp_all
    then show ?thesis by simp
  qed
  show ?thesis
  proof (cases "combo rendered")
    case (Fin a)
    have "Math_min (Fin a) (Fin 10) = Fin (min a 10)" by (simp add: min_def)
    then have "particleCount rendered = fl64 (5 + min a 10)" by (simp add: particleCount_def Fin)
    then have "fl64 (5 + min a 10) = Fin b" using assms by simp
    moreover have "5 + min a 10 \<le> real_of_int 15" by simp
    ultimately show ?thesis using bound by blast
  next
    case PInf
    then have "particleCount rendered = fl64 15" by (simp add: particleCount_def)
    then have "fl64 15 = Fin b" using assms by simp
    moreover have "15 \<le> real_of_int 15" by simp
    ultimately show ?thesis using bound by blast
  next
    case NInf
    then show ?thesis using assms by (simp add: particleCount_def)
  next
    case NaN
    then show ?thesis using assms by (simp add: particleCount_def)
  qed
qed

lemma particleCount_not_PInf: "particleCount rendered \<noteq> PInf"
proof (cases "combo rendered")
  case (Fin a)
  have "fl64 (5 + a) \<noteq> PInf" if "a \<le> 10"
    using that by (intro fl64_not_PInf [where hi = 15]) simp_all
  moreover have "fl64 15 \<noteq> PInf" by (rule fl64_not_PInf [where hi = 15]) simp_all
  ultimately show ?thesis using Fin by (simp add: particleCount_def)
next
  case PInf
  have "fl64 15 \<noteq> PInf" by (rule fl64_not_PInf [where hi = 15]) simp_all
  then show ?thesis using PInf by (simp add: particleCount_def)
next
  case NInf
  then show ?thesis by (simp add: particleCount_def)
next
  case NaN
  then show ?thesis by (simp add: particleCount_def)
qed

lemma iterations_particleCount:
  assumes "combo rendered = Fin (of_int c)" "1 \<le> c"
  shows "iterations (particleCount rendered) = nat (5 + min c 10)"
proof -
  have "Math_min (Fin (of_int c)) (Fin 10) = Fin (of_int (min c 10))" by (simp add: min_def)
  moreover have "isSafeInteger (5 + min c 10)"
    using assms(2) by (auto simp add: isSafeInteger_def min_def)
  then have "Fin (of_int 5) + Fin (of_int (min c 10)) = Fin (of_int (5 + min c 10))"
    by (rule safe_plus)
  ultimately have "particleCount rendered = Fin (of_int (5 + min c 10))"
    by (simp add: particleCount_def assms(1))
  then show ?thesis by simp
qed

text \<open>
  C4. A session opened from the initial state keeps the \<open>triggerBo\<close> of that render,
  whose \<open>gameState.combo\<close> is 1. After the transcriptions \<open>bo\<close> (at 5000) and \<open>bo bo\<close>
  (at 5500) the combo is 3, so a third trigger with one match should spawn
  \<open>1 * (5 + min 3 10) = 8\<close> particles; it spawns \<open>5 + min 1 10 = 6\<close>.
\<close>

theorem burst_of_stale_combo:
  "combo (gameState (run env initialApp
       [ServerMessage (Some (ascii ''bo'')) 5000, ServerMessage (Some (ascii ''bo bo'')) 5500])) = Fin 3
   \<and> length (particles (run env initialApp
       [ServerMessage (Some (ascii ''bo'')) 5000, ServerMessage (Some (ascii ''bo bo'')) 5500,
        ServerMessage (Some (ascii ''bo'')) 6000])) =
     length (particles (run env initialApp
       [ServerMessage (Some (ascii ''bo'')) 5000, ServerMessage (Some (ascii ''bo bo'')) 5500])) + 6"
  by (simp add: run_def connectToGemini_def onmessage_def String_match_bo String_match_bo_bo
      gameState_triggerBo length_particles_triggerBo particleCount_def updateGameState_def Let_def
      initialApp_def initialGameState_def fl_eval)

section \<open>Properties of the particle simulator\<close>

lemma positive_not_le_zero: "Fin 0 < l \<Longrightarrow> \<not> l \<le> Fin 0"
  by (cases l) simp_all

lemma updateParticles_filter_map:
  "updateParticles ps = filter (\<lambda>q. Fin 0 < life q) (map advance ps)"
  by (cases ps) (simp_all add: updateParticles_def)

lemma updateParticles_map_filter:
  "updateParticles ps = map advance (filter (\<lambda>p. Fin 0 < life (advance p)) ps)"
  by (simp add: updateParticles_filter_map filter_map comp_def)

text \<open>
  C6. On a tick every particle is advanced: \<open>x' = x + vx\<close>, \<open>y' = y + vy\<close> (the
  velocity before gravity), \<open>vy' = vy + 0.5\<close>, \<open>rotation' = rotation + vRotation\<close>,
  \<open>life' = life - decay\<close>; the new population is the advanced particles whose life is
  positive, in their order. So no particle of the new population has a life \<open>\<le> 0\<close>,
  and a particle whose life after the advance is \<open>\<le> 0\<close> is not in it: it is removed in
  the tick in which its life gets there.
\<close>

theorem tick_advances_and_retires:
  "x (advance p) = x p + vx p
   \<and> y (advance p) = y p + vy p
   \<and> vy (advance p) = vy p + Fin (1 / 2)
   \<and> rotation (advance p) = rotation p + vRotation p
   \<and> life (advance p) = life p - decay p
   \<and> updateParticles ps = filter (\<lambda>q. Fin 0 < life q) (map advance ps)
   \<and> (\<forall>q \<in> set (updateParticles ps). \<not> life q \<le> Fin 0)
   \<and> (\<forall>q \<in> set ps. life (advance q) \<le> Fin 0 \<longrightarrow> advance q \<notin> set (updateParticles ps))"
proof -
  have "\<forall>q \<in> set (updateParticles ps). \<not> life q \<le> Fin 0"
    by (simp add: updateParticles_filter_map positive_not_le_zero)
  moreover have "\<forall>q \<in> set ps. life (advance q) \<le> Fin 0 \<longrightarrow> advance q \<notin> set (updateParticles ps)"
    using positive_not_le_zero by (auto simp add: updateParticles_filter_map)
  ultimately show ?thesis
    by (simp add: advance_def updateParticles_filter_map)
qed

theorem tick_advances_and_retires_witness:
  "exampleParticle 0 (Fin 1) (Fin 1)
     \<in> set [exampleParticle 0 (Fin 1) (Fin 1), exampleParticle 1 (Fin 1) (Fin (1 / 4))]
   \<and> life (advance (exampleParticle 0 (Fin 1) (Fin 1))) \<le> Fin 0
   \<and> advance (exampleParticle 0 (Fin 1) (Fin 1))
        \<notin> set (updateParticles
            [exampleParticle 0 (Fin 1) (Fin 1), exampleParticle 1 (Fin 1) (Fin (1 / 4))])
   \<and> updateParticles [exampleParticle 0 (Fin 1) (Fin 1), exampleParticle 1 (Fin 1) (Fin (1 / 4))] =
        [\<lparr> id' = 1, x = Fin 643, y = Fin 351, text' = [66, 211], vx = Fin 3,
           vy = Fin (- 17 / 2), rotation = Fin 86, vRotation = Fin (- 4), scale = Fin 2,
           color = ''text-pink-500'', life = Fin (3 / 4), decay = Fin (1 / 4) \<rparr>]
   \<and> \<not> Fin (3 / 4) \<le> Fin 0"
  using tick_advances_and_retires [of "exampleParticle 0 (Fin 1) (Fin 1)"
      "[exampleParticle 0 (Fin 1) (Fin 1), exampleParticle 1 (Fin 1) (Fin (1 / 4))]"]
  by (simp add: updateParticles_def advance_def exampleParticle_def fl_eval)

text \<open>
  C10. The advance leaves \<open>id\<close>, \<open>text\<close>, \<open>vx\<close>, \<open>vRotation\<close>, \<open>scale\<close>, \<open>color\<close> and
  \<open>decay\<close> of a particle as they are. The new population is the image under the
  advance of a sublist of the old one: it has no more particles than before, each
  stems from one particle of the old population, particles with distinct ids keep
  distinct ids, and the empty population is returned as it is.
\<close>

theorem tick_frame:
  "id' (advance p) = id' p
   \<and> text' (advance p) = text' p
   \<and> vx (advance p) = vx p
   \<and> vRotation (advance p) = vRotation p
   \<and> scale (advance p) = scale p
   \<and> color (advance p) = color p
   \<and> decay (advance p) = decay p
   \<and> updateParticles ps = map advance (filter (\<lambda>q. Fin 0 < life (advance q)) ps)
   \<and> length (updateParticles ps) \<le> length ps
   \<and> (distinct (map id' ps) \<longrightarrow> distinct (map id' (updateParticles ps)))
   \<and> updateParticles [] = []"
proof -
  have ids: "map id' (updateParticles ps) = map id' (filter (\<lambda>q. Fin 0 < life (advance q)) ps)"
    by (simp add: updateParticles_map_filter advance_def comp_def)
  have "distinct (map id' ps) \<longrightarrow> distinct (map id' (updateParticles ps))"
    unfolding ids by (simp add: distinct_map_filter)
  moreover have "length (updateParticles ps) \<le> length ps"
    by (simp add: updateParticles_map_filter)
  moreover have "updateParticles ps = map advance (filter (\<lambda>q. Fin 0 < life (advance q)) ps)"
    by (rule updateParticles_map_filter)
  ultimately show ?thesis
    by (simp add: advance_def updateParticles_def)
qed

theorem tick_frame_witness:
  "distinct (map id' [exampleParticle 0 (Fin 1) (Fin 1), exampleParticle 1 (Fin 1) (Fin (1 / 2))])
   \<and> map id' (updateParticles
        [exampleParticle 0 (Fin 1) (Fin 1), exampleParticle 1 (Fin 1) (Fin (1 / 2))]) = [1]
   \<and> distinct (map id' (updateParticles
        [exampleParticle 0 (Fin 1) (Fin 1), exampleParticle 1 (Fin 1) (Fin (1 / 2))]))"
  using tick_frame [of _ "[exampleParticle 0 (Fin 1) (Fin 1), exampleParticle 1 (Fin 1) (Fin (1 / 2))]"]
  by (simp add: updateParticles_def advance_def exampleParticle_def fl_eval)


lemma updateParticles_single:
  "updateParticles [p] = (if Fin 0 < life p - decay p then [advance p] else [])"
  by (simp add: updateParticles_def advance_def)

lemma life_advance: "life (advance p) = life p - decay p"
  by (simp add: advance_def)

lemma decay_advance: "decay (advance p) = decay p"
  by (simp add: advance_def)

lemma life_funpow_advance: "life ((advance ^^ n) p) = lifeAfter n (life p) (decay p)"
proof (induction n arbitrary: p)
  case 0
  show ?case by simp
next
  case (Suc n)
  have "life ((advance ^^ Suc n) p) = life ((advance ^^ n) (advance p))"
    by (simp add: funpow_swap1)
  then show ?case by (simp add: Suc.IH life_advance decay_advance)
qed

lemma alive_ticks:
  "alive n (life p) (decay p) \<Longrightarrow> (updateParticles ^^ n) [p] = [(advance ^^ n) p]"
proof (induction n arbitrary: p)
  case 0
  show ?case by simp
next
  case (Suc n)
  from Suc.prems have pos: "Fin 0 < life p - decay p"
    and rest: "alive n (life (advance p)) (decay (advance p))"
    by (simp_all add: life_advance decay_advance)
  have "(updateParticles ^^ Suc n) [p] = (updateParticles ^^ n) (updateParticles [p])"
    by (simp add: funpow_swap1)
  also have "\<dots> = (updateParticles ^^ n) [advance p]"
    using pos by (simp add: updateParticles_single)
  also have "\<dots> = [(advance ^^ n) (advance p)]"
    using rest by (rule Suc.IH)
  finally show ?case by (simp add: funpow_swap1)
qed

lemma alive_mono: "alive n l d \<Longrightarrow> m \<le> n \<Longrightarrow> alive m l d"
proof (induction n arbitrary: m l)
  case 0
  then show ?case by simp
next
  case (Suc n)
  show ?case
  proof (cases m)
    case 0
    then show ?thesis by simp
  next
    case (Suc k)
    then show ?thesis using Suc.prems Suc.IH [of "l - d" k] by simp
  qed
qed

lemma alive_numeral:
  "alive (numeral k) l d = aliveWith (pred_numeral k) (l - d) d"
  by (simp add: numeral_eq_Suc)

lemma lifeAfter_numeral:
  "lifeAfter (numeral k) l d = lifeAfter (pred_numeral k) (l - d) d"
  by (simp add: numeral_eq_Suc)

lemma decay_002: "fl64 (2 / 100) = Fin (5764607523034235 / 288230376151711744)"
  by (simp add: fl_eval)

lemma alive_49: "alive 49 (Fin 1) (Fin (5764607523034235 / 288230376151711744))"
  by (simp add: alive_numeral fl_eval)

lemma lifeAfter_49:
  "lifeAfter 49 (Fin 1) (Fin (5764607523034235 / 288230376151711744)) =
     Fin (5764607523034057 / 288230376151711744)"
  by (simp add: lifeAfter_numeral fl_eval)

lemma lifeAfter_50:
  "lifeAfter 50 (Fin 1) (Fin (5764607523034235 / 288230376151711744)) =
     Fin (- 89 / 144115188075855872)"
  by (simp add: lifeAfter_numeral fl_eval)


lemma decay_funpow_advance: "decay ((advance ^^ n) p) = decay p"
  by (induction n) (simp_all add: decay_advance)

lemma alive_lifeAfter: "alive n l d \<Longrightarrow> 0 < n \<Longrightarrow> Fin 0 < lifeAfter n l d"
proof (induction n arbitrary: l)
  case 0
  then show ?case by simp
next
  case (Suc n)
  then show ?case by (cases "n = 0") simp_all
qed

text \<open>
  C8. A particle with life \<open>1.0\<close> and decay \<open>0.02\<close> (the binary64 value of that
  literal) is still in the population, with a positive life, after each of the ticks
  1 to 49; after the 50th advance its life is \<open>\<le> 0\<close> (it is \<open>-89 / 2^57\<close>, since the
  subtractions round), and the 50th tick removes it.
\<close>

theorem particle_lifetime:
  assumes "life p = Fin 1" and "decay p = fl64 (2 / 100)"
  shows "(1 \<le> n \<and> n \<le> 49 \<longrightarrow>
            (updateParticles ^^ n) [p] = [(advance ^^ n) p] \<and> Fin 0 < life ((advance ^^ n) p))
         \<and> life ((advance ^^ 50) p) \<le> Fin 0
         \<and> (updateParticles ^^ 50) [p] = []"
proof -
  have d: "decay p = Fin (5764607523034235 / 288230376151711744)"
    using assms(2) decay_002 by simp
  have a49: "alive 49 (life p) (decay p)"
    using assms(1) d by (simp add: alive_49)
  have l50: "life ((advance ^^ 50) p) = Fin (- 89 / 144115188075855872)"
    using assms(1) d by (simp add: life_funpow_advance lifeAfter_50)
  have early: "(updateParticles ^^ n) [p] = [(advance ^^ n) p] \<and> Fin 0 < life ((advance ^^ n) p)"
    if n: "1 \<le> n" "n \<le> 49"
  proof -
    have "alive n (life p) (decay p)" using a49 n(2) by (rule alive_mono)
    then show ?thesis using n(1) by (simp add: alive_ticks life_funpow_advance alive_lifeAfter)
  qed
  have "(updateParticles ^^ 50) [p] = updateParticles ((updateParticles ^^ 49) [p])"
    by (simp add: numeral_eq_Suc)
  also have "\<dots> = updateParticles [(advance ^^ 49) p]"
    using a49 by (simp add: alive_ticks)
  also have "\<dots> = []"
  proof -
    have "life ((advance ^^ 49) p) - decay ((advance ^^ 49) p) = life (advance ((advance ^^ 49) p))"
      by (simp add: life_advance)
    also have "advance ((advance ^^ 49) p) = (advance ^^ 50) p"
      by (simp add: numeral_eq_Suc)
    finally have "life ((advance ^^ 49) p) - decay ((advance ^^ 49) p) =
        Fin (- 89 / 144115188075855872)"
      using l50 by simp
    then show ?thesis by (simp add: updateParticles_single)
  qed
  finally have "(updateParticles ^^ 50) [p] = []" .
  then show ?thesis using early l50 by simp
qed

theorem particle_lifetime_witness:
  "life (exampleParticle 0 (Fin 1) (fl64 (2 / 100))) = Fin 1
   \<and> decay (exampleParticle 0 (Fin 1) (fl64 (2 / 100))) = fl64 (2 / 100)
   \<and> (1::nat) \<le> 49 \<and> (49::nat) \<le> 49
   \<and> (updateParticles ^^ 49) [exampleParticle 0 (Fin 1) (fl64 (2 / 100))] =
        [(advance ^^ 49) (exampleParticle 0 (Fin 1) (fl64 (2 / 100)))]
   \<and> (updateParticles ^^ 50) [exampleParticle 0 (Fin 1) (fl64 (2 / 100))] = []"
  using particle_lifetime [of "exampleParticle 0 (Fin 1) (fl64 (2 / 100))" 49]
  by (simp add: exampleParticle_def)

section \<open>Properties of the resampler\<close>

lemma length_downsampleLoop:
  "length (downsampleLoop buffer ratio newLength i result) = length result"
proof (induction buffer ratio newLength i result rule: downsampleLoop.induct)
  case (1 buffer ratio newLength i result)
  show ?case
  proof (cases "i < newLength")
    case True
    then show ?thesis using "1.IH" by (subst downsampleLoop.simps) simp
  next
    case False
    then show ?thesis by (subst downsampleLoop.simps) simp
  qed
qed

lemma length_downsampleTo16k:
  assumes "inputSampleRate \<noteq> Fin 16000"
    and "downsampleTo16k buffer inputSampleRate = Inr result"
  shows "ToIndex (Math_ceil (Fin (of_nat (length buffer)) / (inputSampleRate / Fin 16000))) =
           Some (length result)"
  using assms
  by (auto simp add: downsampleTo16k_def Let_def length_downsampleLoop split: option.splits)

lemma length_pcmBytes:
  assumes "createPcmBlob buffer inputSampleRate = Inr blob"
  shows "\<exists>result. downsampleTo16k buffer inputSampleRate = Inr result
           \<and> length (pcmBytes blob) = 2 * length result"
  using assms by (auto simp add: createPcmBlob_def length_uint8View split: sum.splits)

lemma ceiling_near:
  fixes r :: real and N R :: int
  assumes R: "0 < R" and near: "\<bar>r * of_int R - of_int N\<bar> < 1"
  shows "(R dvd N \<longrightarrow> \<lceil>r\<rceil> = N div R \<or> \<lceil>r\<rceil> = N div R + 1)
         \<and> (\<not> R dvd N \<longrightarrow> \<lceil>r\<rceil> = \<lceil>of_int N / of_int R :: real\<rceil>)"
proof -
  define m where "m = N div R"
  define s where "s = N mod R"
  have N: "N = m * R + s" by (simp add: m_def s_def)
  have s: "0 \<le> s" "s < R" using R by (simp_all add: s_def)
  have Rr: "0 < real_of_int R" using R by simp
  have low: "of_int N - 1 < r * of_int R" and high: "r * of_int R < of_int N + 1"
    using near by linarith+
  show ?thesis
  proof (cases "R dvd N")
    case True
    then have "s = 0" by (simp add: s_def)
    then have Nm: "real_of_int N = of_int m * of_int R" using N by simp
    have "1 \<le> real_of_int R" using R by simp
    then have "(real_of_int m - 1) * real_of_int R \<le> real_of_int m * real_of_int R - 1"
      by (simp add: algebra_simps)
    then have "(real_of_int m - 1) * real_of_int R < r * real_of_int R" using low Nm by linarith
    then have a: "real_of_int m - 1 < r" using Rr by (simp only: mult_less_cancel_right_pos)
    have "real_of_int m * real_of_int R + 1 \<le> (real_of_int m + 1) * real_of_int R"
      using \<open>1 \<le> real_of_int R\<close> by (simp add: algebra_simps)
    then have "r * real_of_int R < (real_of_int m + 1) * real_of_int R" using high Nm by linarith
    then have b: "r < real_of_int m + 1" using Rr by (simp only: mult_less_cancel_right_pos)
    have "\<lceil>r\<rceil> = m \<or> \<lceil>r\<rceil> = m + 1" using a b by (cases "r \<le> of_int m") (auto simp add: ceiling_eq_iff)
    then show ?thesis using True by (simp add: m_def)
  next
    case False
    then have "s \<noteq> 0" by (simp add: s_def dvd_eq_mod_eq_0)
    then have s1: "1 \<le> s" using s(1) by simp
    have Ns: "real_of_int N = of_int m * of_int R + of_int s" by (subst N) simp
    have "real_of_int m * real_of_int R \<le> real_of_int N - 1" using s1 Ns by simp
    then have "real_of_int m * real_of_int R < r * real_of_int R" using low by linarith
    then have a: "real_of_int m < r" using Rr by (simp only: mult_less_cancel_right_pos)
    have "s + 1 \<le> R" using s(2) by simp
    then have "real_of_int (s + 1) \<le> real_of_int R" by (simp only: of_int_le_iff)
    then have "real_of_int s + 1 \<le> of_int R" by simp
    then have "real_of_int N + 1 \<le> (real_of_int m + 1) * real_of_int R" using Ns by (simp add: algebra_simps)
    then have "r * real_of_int R < (real_of_int m + 1) * real_of_int R" using high by linarith
    then have b: "r < real_of_int m + 1" using Rr by (simp only: mult_less_cancel_right_pos)
    have c: "\<lceil>r\<rceil> = m + 1" using a b by (simp add: ceiling_eq_iff)
    have "real_of_int N / of_int R = of_int m + of_int s / of_int R"
      using Rr by (simp add: Ns field_simps)
    moreover have "0 < real_of_int s / of_int R" using s1 Rr by simp
    moreover have "real_of_int s / of_int R < 1" using s(2) Rr by simp
    ultimately have "\<lceil>real_of_int N / of_int R\<rceil> = m + 1" by (simp add: ceiling_eq_iff)
    then show ?thesis using False c by simp
  qed
qed


lemma divide_near:
  fixes R :: int and L :: nat
  assumes R: "1 \<le> R" "R \<le> 2 ^ 20" and L: "L \<le> 2 ^ 17"
  shows "\<exists>r. Fin (of_nat L) / (Fin (of_int R) / Fin 16000) = Fin r
           \<and> \<bar>r * of_int R - of_int (int L * 16000)\<bar> < 1"
proof -
  define t :: real where "t = of_int R / 16000"
  have Rr: "1 \<le> real_of_int R" "real_of_int R \<le> 2 ^ 20"
    using R by simp_all
  have t: "1 / 16000 \<le> t" "t \<le> 2 ^ 20 / 16000" "0 < t"
    using Rr by (simp_all add: t_def)
  have "\<exists>\<rho>. fl64 t = Fin \<rho> \<and> \<bar>\<rho> - t\<bar> \<le> \<bar>t\<bar> / 2 ^ 53"
    using t by (intro fl64_error) simp_all
  then obtain \<rho> where \<rho>: "fl64 t = Fin \<rho>" "\<bar>\<rho> - t\<bar> \<le> t / 2 ^ 53"
    using t(3) by auto
  have ratio: "Fin (of_int R) / Fin 16000 = Fin \<rho>"
    using \<rho>(1) by (simp add: t_def)
  have small: "t / 2 ^ 53 \<le> t / 2" using t(3) by simp
  have half: "t / 2 \<le> \<rho>" using \<rho>(2) small by linarith
  then have \<rho>pos: "0 < \<rho>" using t(3) by linarith
  have \<rho>hi: "\<rho> \<le> 2 * t" using \<rho>(2) small t(3) by linarith
  define c where "c = t / \<rho>"
  have c: "0 < c" "c \<le> 2" using half \<rho>pos t(3) by (simp_all add: c_def field_simps)
  have "c - 1 = (t - \<rho>) / \<rho>" using \<rho>pos by (simp add: c_def field_simps)
  then have "\<bar>c - 1\<bar> = \<bar>t - \<rho>\<bar> / \<bar>\<rho>\<bar>" by (simp only: abs_divide)
  also have "\<dots> = \<bar>\<rho> - t\<bar> / \<rho>" using \<rho>pos by (simp add: abs_minus_commute)
  also have "\<dots> \<le> (t / 2 ^ 53) / \<rho>"
    by (rule divide_right_mono [OF \<rho>(2)]) (use \<rho>pos in simp)
  also have "\<dots> = c / 2 ^ 53" by (simp add: c_def)
  also have "\<dots> \<le> 2 / 2 ^ 53" using c(2) by simp
  finally have c1: "\<bar>c - 1\<bar> \<le> 2 / 2 ^ 53" .
  define A :: real where "A = real L * 16000"
  have A: "0 \<le> A" "A \<le> 2 ^ 31"
  proof -
    have "real L \<le> 2 ^ 17" using L by (simp only: of_nat_le_numeral_power_cancel_iff)
    then show "A \<le> 2 ^ 31" by (simp add: A_def)
  qed (simp add: A_def)
  show ?thesis
  proof (cases "L = 0")
    case True
    then show ?thesis unfolding ratio using \<rho>pos by (simp add: fl64_def round_to_def)
  next
    case False
    define q where "q = real L / \<rho>"
    have L1: "1 \<le> real L" using False by simp
    have qR: "q * of_int R = A * c"
      using \<rho>pos by (simp add: q_def A_def c_def t_def)
    have qpos: "0 < q" using L1 \<rho>pos by (simp add: q_def)
    have "1 / (2 * t) \<le> 1 / \<rho>" using \<rho>hi \<rho>pos by (simp add: field_simps)
    moreover have "1 / 2 ^ 20 \<le> 1 / (2 * t)" using t by (simp add: field_simps)
    moreover have "1 / \<rho> \<le> q" using L1 \<rho>pos by (simp add: q_def field_simps)
    ultimately have qlo: "1 / 2 ^ 20 \<le> \<bar>q\<bar>" using qpos by linarith
    have "q \<le> real L / (t / 2)" unfolding q_def
      using half t(3) L1 by (intro divide_left_mono) (simp_all add: \<rho>pos)
    also have "\<dots> = 2 * real L / t" by simp
    also have "\<dots> \<le> 2 * real L * 16000" using t L1 by (simp add: field_simps)
    also have "\<dots> \<le> 2 ^ 40" using A by (simp add: A_def)
    finally have qhi: "\<bar>q\<bar> \<le> 2 ^ 40" using qpos by simp
    have "\<exists>r. fl64 q = Fin r \<and> \<bar>r - q\<bar> \<le> \<bar>q\<bar> / 2 ^ 53"
      using qlo qhi by (rule fl64_error)
    then obtain r where r: "fl64 q = Fin r" "\<bar>r - q\<bar> \<le> q / 2 ^ 53"
      using qpos by auto
    have quot: "Fin (of_nat L) / (Fin (of_int R) / Fin 16000) = Fin r"
      unfolding ratio using r(1) \<rho>pos by (simp add: q_def)
    have e1: "\<bar>(r - q) * of_int R\<bar> \<le> A * c / 2 ^ 53"
    proof -
      have "\<bar>(r - q) * of_int R\<bar> = \<bar>r - q\<bar> * of_int R" using Rr by (simp add: abs_mult)
      also have "\<dots> \<le> q / 2 ^ 53 * of_int R" using r(2) Rr by (intro mult_right_mono) simp_all
      also have "\<dots> = A * c / 2 ^ 53" using qR by simp
      finally show ?thesis .
    qed
    have "A * c \<le> 2 ^ 31 * 2" using A c by (intro mult_mono) simp_all
    then have e1': "\<bar>(r - q) * of_int R\<bar> \<le> 2 ^ 32 / 2 ^ 53"
      using e1 by (simp add: field_simps)
    have "q * of_int R - A = A * (c - 1)" by (simp add: qR algebra_simps)
    then have "\<bar>q * of_int R - A\<bar> = \<bar>A\<bar> * \<bar>c - 1\<bar>" by (simp only: abs_mult)
    also have "\<dots> = A * \<bar>c - 1\<bar>" using A(1) by simp
    also have "\<dots> \<le> 2 ^ 31 * (2 / 2 ^ 53)" using A c1 by (intro mult_mono) simp_all
    finally have e2: "\<bar>q * of_int R - A\<bar> \<le> 2 ^ 32 / 2 ^ 53" by simp
    have "r * of_int R - A = (r - q) * of_int R + (q * of_int R - A)" by (simp add: algebra_simps)
    then have "\<bar>r * of_int R - A\<bar> \<le> 2 ^ 32 / 2 ^ 53 + 2 ^ 32 / 2 ^ 53"
      using e1' e2 by linarith
    then have "\<bar>r * of_int R - A\<bar> < 1" by simp
    then show ?thesis using quot by (simp add: A_def)
  qed
qed


lemma newLength_integer_rate:
  fixes R :: int and L :: nat
  assumes R: "1 \<le> R" "R \<le> 2 ^ 20" and L: "L \<le> 2 ^ 17"
  shows "\<exists>n. ToIndex (Math_ceil (Fin (of_nat L) / (Fin (of_int R) / Fin 16000))) = Some n
           \<and> (int n = \<lceil>real L * 16000 / of_int R\<rceil>
                \<or> R dvd int L * 16000 \<and> int n = \<lceil>real L * 16000 / of_int R\<rceil> + 1)"
proof -
  define N where "N = int L * 16000"
  obtain r where r: "Fin (of_nat L) / (Fin (of_int R) / Fin 16000) = Fin r"
    "\<bar>r * of_int R - of_int N\<bar> < 1"
    using divide_near [OF assms] unfolding N_def by blast
  have Rpos: "0 < R" using R by simp
  have near: "(R dvd N \<longrightarrow> \<lceil>r\<rceil> = N div R \<or> \<lceil>r\<rceil> = N div R + 1)
         \<and> (\<not> R dvd N \<longrightarrow> \<lceil>r\<rceil> = \<lceil>of_int N / of_int R :: real\<rceil>)"
    using Rpos r(2) by (rule ceiling_near)
  have q: "real L * 16000 / of_int R = of_int N / of_int R" by (simp add: N_def)
  have exact: "\<lceil>of_int N / of_int R :: real\<rceil> = N div R" if "R dvd N"
  proof -
    from that obtain k where "N = R * k" by (rule dvdE)
    then show ?thesis using Rpos by simp
  qed
  have choice: "\<lceil>r\<rceil> = \<lceil>real L * 16000 / of_int R\<rceil>
      \<or> R dvd N \<and> \<lceil>r\<rceil> = \<lceil>real L * 16000 / of_int R\<rceil> + 1"
    unfolding q using near exact by (cases "R dvd N") auto
  have N: "0 \<le> N" "N \<le> 2 ^ 31"
    using L by (simp_all add: N_def)
  have Rr: "1 \<le> real_of_int R" using R by simp
  have Nr: "0 \<le> real_of_int N" "real_of_int N \<le> 2 ^ 31"
    using N by simp_all
  have lo: "- 1 < r"
  proof (rule ccontr)
    assume "\<not> - 1 < r"
    then have "r * of_int R \<le> - 1 * of_int R" using Rr by (intro mult_right_mono) simp_all
    then show False using r(2) Rr Nr by linarith
  qed
  have hi: "r < 2 ^ 31 + 1"
  proof (cases "0 \<le> r")
    case True
    then have "r * 1 \<le> r * of_int R" using Rr by (intro mult_left_mono) simp_all
    then show ?thesis using r(2) Nr by linarith
  next
    case False
    then show ?thesis by simp
  qed
  have range: "0 \<le> \<lceil>r\<rceil>" "\<lceil>r\<rceil> \<le> 2 ^ 31 + 1"
    using lo hi by (simp_all add: le_ceiling_iff ceiling_le_iff)
  have "ToIndex (Math_ceil (Fin r)) = Some (nat \<lceil>r\<rceil>)"
    using range by (simp add: trunc_def)
  then show ?thesis using r(1) choice range(1) unfolding N_def by auto
qed

text \<open>
  A frame of four samples at 24000 Hz: three samples come out (the middle one
  interpolated), and six bytes.
\<close>

lemma downsampleTo16k_example:
  "downsampleTo16k [Fin 0, Fin (1 / 2), Fin 1, Fin (1 / 2)] (Fin 24000) =
     Inr [Fin 0, Fin (3 / 4), Fin (1 / 2)]"
  by (simp add: downsampleTo16k_def downsampleLoop.simps interpolate_def Let_def orZero_def
      fl32_def fl_eval trunc_def numeral_3_eq_3)

lemma createPcmBlob_example:
  "createPcmBlob [Fin 0, Fin (1 / 2), Fin 1, Fin (1 / 2)] (Fin 24000) =
     Inr \<lparr> pcmBytes = [0, 0, 255, 95, 255, 63], mimeType = ''audio/pcm;rate=16000'' \<rparr>"
  by (simp add: createPcmBlob_def downsampleTo16k_example uint8View_def int16Bytes_def toInt16Sample_def
      clampSample_def scaleSample_def wrap16_def trunc_def fl_eval)

text \<open>
  The length of the resampled frame is computed in binary64: 21 samples at 22400 Hz
  give \<open>ratio = 1.4\<close> rounded down, \<open>21 / ratio\<close> rounds to the number after 15, and
  \<open>Math.ceil\<close> makes it 16, while \<open>ceil(21 * 16000 / 22400) = 15\<close>.
\<close>

theorem resample_length_counterexample:
  "map_sum id length (downsampleTo16k (replicate 21 (Fin 0)) (Fin 22400)) = Inr 16
   \<and> \<lceil>21 * 16000 / 22400 :: real\<rceil> = 15"
  by (simp add: downsampleTo16k_def Let_def length_downsampleLoop fl_eval trunc_def)

text \<open>
  C2, amended. At 16000 Hz the samples are returned unchanged. At any other rate for
  which the result can be allocated, the number of resampled samples is
  \<open>Math.ceil(inputLength / (inputRate / 16000))\<close> as binary64 arithmetic computes it
  (both divisions rounded). For a rate \<open>R\<close> that is a whole number of hertz from 1 to
  \<open>2^20\<close> and a frame of at most \<open>2^17\<close> samples this is
  \<open>ceil(inputLength * 16000 / R)\<close>, or one more than that when
  \<open>inputLength * 16000 / R\<close> is a whole number (\<open>R\<close> divides \<open>inputLength * 16000\<close>).
  The bytes of the PCM data are twice as many as the resampled samples.
\<close>

theorem resample_length:
  "downsampleTo16k buffer (Fin 16000) = Inr buffer
   \<and> (inputSampleRate \<noteq> Fin 16000 \<and> downsampleTo16k buffer inputSampleRate = Inr result \<longrightarrow>
        ToIndex (Math_ceil (Fin (of_nat (length buffer)) / (inputSampleRate / Fin 16000))) =
          Some (length result))
   \<and> (1 \<le> R \<and> R \<le> 2 ^ 20 \<and> R \<noteq> 16000 \<and> length buffer \<le> 2 ^ 17 \<longrightarrow>
        (\<exists>samples. downsampleTo16k buffer (Fin (of_int R)) = Inr samples
           \<and> (int (length samples) = \<lceil>real (length buffer) * 16000 / of_int R\<rceil>
                \<or> R dvd int (length buffer) * 16000
                  \<and> int (length samples) = \<lceil>real (length buffer) * 16000 / of_int R\<rceil> + 1)))
   \<and> (createPcmBlob buffer inputSampleRate = Inr blob \<longrightarrow>
        (\<exists>samples. downsampleTo16k buffer inputSampleRate = Inr samples
           \<and> length (pcmBytes blob) = 2 * length samples))"
proof -
  have "\<exists>samples. downsampleTo16k buffer (Fin (of_int R)) = Inr samples
           \<and> (int (length samples) = \<lceil>real (length buffer) * 16000 / of_int R\<rceil>
                \<or> R dvd int (length buffer) * 16000
                  \<and> int (length samples) = \<lceil>real (length buffer) * 16000 / of_int R\<rceil> + 1)"
    if R: "1 \<le> R" "R \<le> 2 ^ 20" "R \<noteq> 16000" and L: "length buffer \<le> 2 ^ 17"
  proof -
    obtain n where n:
      "ToIndex (Math_ceil (Fin (of_nat (length buffer)) / (Fin (of_int R) / Fin 16000))) = Some n"
      "int n = \<lceil>real (length buffer) * 16000 / of_int R\<rceil>
         \<or> R dvd int (length buffer) * 16000
           \<and> int n = \<lceil>real (length buffer) * 16000 / of_int R\<rceil> + 1"
      using newLength_integer_rate [OF R(1,2) L] by blast
    have "Fin (of_int R) \<noteq> Fin 16000" using R(3) by simp
    then have "downsampleTo16k buffer (Fin (of_int R)) =
        Inr (downsampleLoop buffer (Fin (of_int R) / Fin 16000) n 0 (replicate n (Fin 0)))"
      using n(1) by (simp add: downsampleTo16k_def Let_def)
    then show ?thesis using n(2) by (simp add: length_downsampleLoop)
  qed
  then show ?thesis
    using length_downsampleTo16k [of inputSampleRate buffer result]
      length_pcmBytes [of buffer inputSampleRate blob]
    by (simp add: downsampleTo16k_def)
qed

theorem resample_length_witness:
  "Fin 24000 \<noteq> Fin 16000
   \<and> downsampleTo16k [Fin 0, Fin (1 / 2), Fin 1, Fin (1 / 2)] (Fin 24000) =
        Inr [Fin 0, Fin (3 / 4), Fin (1 / 2)]
   \<and> (1::int) \<le> 24000 \<and> (24000::int) \<le> 2 ^ 20 \<and> (24000::int) \<noteq> 16000
   \<and> length [Fin 0, Fin (1 / 2), Fin 1, Fin (1 / 2)] \<le> 2 ^ 17
   \<and> \<lceil>real (length [Fin 0, Fin (1 / 2), Fin 1, Fin (1 / 2)]) * 16000 / 24000\<rceil> = 3
   \<and> createPcmBlob [Fin 0, Fin (1 / 2), Fin 1, Fin (1 / 2)] (Fin 24000) =
        Inr \<lparr> pcmBytes = [0, 0, 255, 95, 255, 63], mimeType = ''audio/pcm;rate=16000'' \<rparr>
   \<and> length [0, 0, 255, 95, 255, 63 :: nat] = 2 * length [Fin 0, Fin (3 / 4), Fin (1 / 2)]
   \<and> (\<exists>samples. downsampleTo16k (replicate 4096 (Fin 0)) (Fin 44100) = Inr samples
          \<and> int (length samples) = 1487)
   \<and> (\<exists>samples. downsampleTo16k (replicate 4096 (Fin 0)) (Fin 48000) = Inr samples
          \<and> int (length samples) = 1366)"
  using resample_length [of "[Fin 0, Fin (1 / 2), Fin 1, Fin (1 / 2)]" "Fin 24000"
      "[Fin 0, Fin (3 / 4), Fin (1 / 2)]" 24000
      "\<lparr> pcmBytes = [0, 0, 255, 95, 255, 63], mimeType = ''audio/pcm;rate=16000'' \<rparr>"]
    resample_length [of "replicate 4096 (Fin 0)" _ _ 44100]
    resample_length [of "replicate 4096 (Fin 0)" _ _ 48000]
  by (simp add: downsampleTo16k_example createPcmBlob_example)

end
